theory Spec2Isabelle
  imports Main "HOL-Library.Sublist"
begin

section \<open>Go values\<close>

text \<open>
  A Go string is a sequence of bytes: \<^typ>\<open>string\<close>, with \<^typ>\<open>char\<close> the byte.
  A Go slice that may be \<open>nil\<close> is an optional list: \<open>None\<close> is the nil slice,
  \<open>Some []\<close> a non-nil slice of length 0. \<open>append\<close> on a nil slice allocates.
\<close>

type_synonym 'a slice = "'a list option"

definition append_slice :: "'a slice \<Rightarrow> 'a \<Rightarrow> 'a slice" where
  "append_slice s x = (case s of None \<Rightarrow> Some [x] | Some xs \<Rightarrow> Some (xs @ [x]))"

definition elems_of :: "'a slice \<Rightarrow> 'a list" where
  "elems_of s = (case s of None \<Rightarrow> [] | Some xs \<Rightarrow> xs)"

text \<open>
  \<open>http.Header\<close> maps a header name to its physical lines; \<open>h[name]\<close> of an absent
  name is the nil slice, whose length is 0.
\<close>

type_synonym Header = "string \<rightharpoonup> string list"

definition lines_of :: "Header \<Rightarrow> string \<Rightarrow> string list" where
  "lines_of h name = (case h name of None \<Rightarrow> [] | Some ls \<Rightarrow> ls)"

section \<open>Lexical scanner\<close>

definition DQUOTE :: char where "DQUOTE = CHR 0x22"
definition BSLASH :: char where "BSLASH = CHR 0x5C"
definition HTAB :: char where "HTAB = CHR 0x09"

definition isWS :: "char \<Rightarrow> bool" where
  "isWS c = (c = CHR '' '' \<or> c = HTAB)"

definition isDigit :: "char \<Rightarrow> bool" where
  "isDigit c = (48 \<le> (of_char c :: nat) \<and> (of_char c :: nat) \<le> 57)"

text \<open>
  Modelled from the spec: the scanner helpers \<open>peek\<close>, \<open>consume\<close>, \<open>token\<close>,
  \<open>chomp\<close>, \<open>number\<close>, \<open>quoted\<close>, \<open>comment\<close> (and \<open>consumeItem\<close>,
  \<open>consumeQuoted\<close> of the Forwarded parser) are called by the parsers but their
  bodies are not among the sources. Each follows section 4.1 of the specification;
  where that is silent on whitespace, the scenarios of section 8 and the parser tests
  decide: \<open>chomp\<close> skips whitespace before and after the run it reads
  (\<open>"1.0 \tfoo"\<close>, \<open>"1.0 foo\t (comment)"\<close>, \<open>"299  - \"two spaces\""\<close>), the other
  helpers skip none (\<open>"299 - \"good\" \"Sat, ...\""\<close> needs the space after the text).
\<close>

definition skipWS :: "string \<Rightarrow> string" where
  "skipWS v = dropWhile isWS v"

text \<open>Modelled from the spec: \<open>peek(cursor) -> byte|none\<close>, the next byte without consuming.\<close>

definition peek :: "string \<Rightarrow> char option" where
  "peek v = (case v of [] \<Rightarrow> None | c # _ \<Rightarrow> Some c)"

text \<open>Modelled from the spec: \<open>consume\<close> consumes one byte if it equals the expected one.\<close>

definition consume :: "string \<Rightarrow> char \<Rightarrow> string \<times> bool" where
  "consume v expected =
     (case v of [] \<Rightarrow> (v, False)
      | c # rest \<Rightarrow> if c = expected then (rest, True) else (v, False))"

text \<open>
  Modelled from the spec: RFC 7230 token characters are the visible ASCII bytes other
  than the delimiters \<open>"(),/:;<=>?@[\]{}\<close>.
\<close>

definition isDelim :: "char \<Rightarrow> bool" where
  "isDelim c = (c \<in> set (DQUOTE # BSLASH # ''(),/:;<=>?@[]{}''))"

definition isTokenChar :: "char \<Rightarrow> bool" where
  "isTokenChar c = (33 \<le> (of_char c :: nat) \<and> (of_char c :: nat) \<le> 126 \<and> \<not> isDelim c)"

text \<open>Modelled from the spec: \<open>token\<close> consumes the maximal run of token characters.\<close>

definition token :: "string \<Rightarrow> string \<times> string" where
  "token v = (takeWhile isTokenChar v, dropWhile isTokenChar v)"

text \<open>
  Modelled from the spec: \<open>chomp\<close> consumes the maximal run of bytes that are neither
  whitespace nor a comma, with the whitespace around it.
\<close>

definition isChompChar :: "char \<Rightarrow> bool" where
  "isChompChar c = (\<not> isWS c \<and> c \<noteq> CHR '','')"

definition chomp :: "string \<Rightarrow> string \<times> string" where
  "chomp v = (let w = skipWS v in (takeWhile isChompChar w, skipWS (dropWhile isChompChar w)))"

text \<open>
  Modelled from the spec: \<open>number\<close> consumes a maximal run of ASCII digits and returns
  their decimal value, or \<open>-1\<close> when there is no digit.
\<close>

definition digit_val :: "char \<Rightarrow> int" where
  "digit_val c = int (of_char c) - 48"

definition decimal :: "string \<Rightarrow> int" where
  "decimal ds = foldl (\<lambda>n c. 10 * n + digit_val c) 0 ds"

definition number :: "string \<Rightarrow> int \<times> string" where
  "number v =
     (let ds = takeWhile isDigit v in
      if ds = [] then (-1, v) else (decimal ds, dropWhile isDigit v))"

text \<open>
  Modelled from the spec: the body of a quoted string, read after the opening quote, up
  to the matching unescaped quote; \<open>\X\<close> stands for \<open>X\<close>. The result is the decoded
  text, the input after the closing quote, and whether there was a closing quote.
\<close>

fun quoted_body :: "string \<Rightarrow> string \<times> string \<times> bool" where
  "quoted_body [] = ([], [], False)"
| "quoted_body (c # rest) =
     (if c = DQUOTE then ([], rest, True)
      else if c = BSLASH then
        (case rest of
           [] \<Rightarrow> ([], [], False)
         | x # rest' \<Rightarrow> (case quoted_body rest' of (t, v, ok) \<Rightarrow> (x # t, v, ok)))
      else (case quoted_body rest of (t, v, ok) \<Rightarrow> (c # t, v, ok)))"

text \<open>
  Modelled from the spec: \<open>consumeQuoted\<close> expects a quote; without one it reads nothing.
  An unterminated string still gives its decoded interior, and \<open>ok\<close> is false. What
  the second argument selects is not described; the model reads the same text for both.
\<close>

definition consumeQuoted :: "string \<Rightarrow> bool \<Rightarrow> string \<times> string \<times> bool" where
  "consumeQuoted v flag =
     (case v of [] \<Rightarrow> ([], v, False)
      | c # rest \<Rightarrow> if c = DQUOTE then quoted_body rest else ([], v, False))"

definition quoted :: "string \<Rightarrow> string \<times> string" where
  "quoted v = (case consumeQuoted v True of (t, v', ok) \<Rightarrow> (t, v'))"

text \<open>
  Modelled from the spec: the body of a comment, read after the opening parenthesis at
  nesting depth \<open>d\<close> (the number of parentheses open inside the comment); nested
  parentheses are part of the text, \<open>\X\<close> stands for \<open>X\<close>, and an unterminated
  comment runs to the end of the input.
\<close>

fun comment_body :: "nat \<Rightarrow> string \<Rightarrow> string \<times> string" where
  "comment_body d [] = ([], [])"
| "comment_body d (c # rest) =
     (if c = CHR '')'' then
        (case d of
           0 \<Rightarrow> ([], rest)
         | Suc d' \<Rightarrow> (case comment_body d' rest of (t, v) \<Rightarrow> (c # t, v)))
      else if c = CHR ''('' then
        (case comment_body (Suc d) rest of (t, v) \<Rightarrow> (c # t, v))
      else if c = BSLASH then
        (case rest of
           [] \<Rightarrow> ([], [])
         | x # rest' \<Rightarrow> (case comment_body d rest' of (t, v) \<Rightarrow> (x # t, v)))
      else (case comment_body d rest of (t, v) \<Rightarrow> (c # t, v)))"

definition comment :: "string \<Rightarrow> string \<times> string" where
  "comment v =
     (case v of [] \<Rightarrow> ([], v)
      | c # rest \<Rightarrow> if c = CHR ''('' then comment_body 0 rest else ([], v))"

section \<open>Element iterator\<close>

text \<open>
  Modelled from the spec: \<open>toNextElem\<close> (section 4.2) is called by every parser but
  its body is not among the sources. From the rest \<open>v\<close> of the current line it leaves
  the current element at the next top-level comma, that is a comma outside a quoted
  string, or at the end of the line; it then skips commas and whitespace, and moves to
  the next physical line whenever the current one is exhausted. It returns the line
  from the start of the next element on, with the lines still to come; when no element
  is left the second result is nil (\<open>None\<close>).
\<close>

definition isSep :: "char \<Rightarrow> bool" where
  "isSep c = (c = CHR '','' \<or> isWS c)"

lemma quoted_body_length: "quoted_body v = (t, v', ok) \<Longrightarrow> length v' \<le> length v"
  by (induction v arbitrary: t v' ok rule: quoted_body.induct)
     (fastforce split: if_splits list.splits prod.splits)+

lemma quoted_body_suffix: "quoted_body w = (t, v, ok) \<Longrightarrow> suffix v w"
proof (induction w arbitrary: t v ok rule: quoted_body.induct)
  case 1
  then show ?case by simp
next
  case (2 c rest)
  show ?case
  proof (cases "c = DQUOTE")
    case True
    with 2(3) show ?thesis by (simp add: suffix_ConsI)
  next
    case nq: False
    show ?thesis
    proof (cases "c = BSLASH")
      case True
      show ?thesis
      proof (cases rest)
        case Nil
        with nq True 2(3) show ?thesis by simp
      next
        case (Cons x rest')
        obtain t' v' ok' where q: "quoted_body rest' = (t', v', ok')"
          by (cases "quoted_body rest'") auto
        with nq True Cons 2(3) have "v' = v" by simp
        with "2.IH"(1) [OF nq True Cons, of t' v ok'] q Cons show ?thesis
          by (simp add: suffix_ConsI)
      qed
    next
      case False
      obtain t' v' ok' where q: "quoted_body rest = (t', v', ok')"
        by (cases "quoted_body rest") auto
      with nq False 2(3) have "v' = v" by simp
      with "2.IH"(2) [OF nq False, of t' v ok'] q show ?thesis by (simp add: suffix_ConsI)
    qed
  qed
qed

text \<open>
  Modelled from the spec: the rest of the current element is left behind up to its
  top-level comma. A quoted string is passed over as the scanner reads it, so a comma
  inside it does not end the element; a quoted string that is never closed takes the
  rest of the line with it.
\<close>

function skipElem :: "string \<Rightarrow> string" where
  "skipElem [] = []"
| "skipElem (c # rest) =
     (if c = CHR '','' then c # rest
      else if c = DQUOTE then skipElem (fst (snd (quoted_body rest)))
      else skipElem rest)"
  by pat_completeness auto
termination
proof (relation "measure length")
  fix c :: char and rest :: string
  obtain t v ok where q: "quoted_body rest = (t, v, ok)" by (cases "quoted_body rest") auto
  from quoted_body_length [OF q] q
  show "(fst (snd (quoted_body rest)), c # rest) \<in> measure length" by simp
qed simp_all

declare skipElem.simps(2) [simp del]

definition skipSeps :: "string \<Rightarrow> string" where
  "skipSeps v = dropWhile isSep v"

fun nextLine :: "string list \<Rightarrow> string \<times> string list option" where
  "nextLine [] = ([], None)"
| "nextLine (l # ls) =
     (let v = skipSeps l in if v = [] then nextLine ls else (v, Some ls))"

definition toNextElem :: "string \<Rightarrow> string list \<Rightarrow> string \<times> string list option" where
  "toNextElem v vs =
     (let v' = skipSeps (skipElem v) in if v' = [] then nextLine vs else (v', Some vs))"

text \<open>Modelled from the spec: \<open>iterElems\<close> is the name the Forwarded parser has for the iterator.\<close>

definition iterElems :: "string \<Rightarrow> string list \<Rightarrow> string \<times> string list option" where
  "iterElems v vs = toNextElem v vs"

text \<open>What is left to scan: the rest of the line and the lines to come.\<close>

definition remaining :: "string \<Rightarrow> string list \<Rightarrow> nat" where
  "remaining v vs = length v + sum_list (map (\<lambda>l. Suc (length l)) vs)"

section \<open>Allow\<close>

function Allow_loop :: "string slice \<Rightarrow> string \<Rightarrow> string list \<Rightarrow> string slice" where
  "Allow_loop methods v0 vs0 =
     (case toNextElem v0 vs0 of
        (_, None) \<Rightarrow> methods
      | (v, Some vs) \<Rightarrow>
          (case token v of
             (tok, v') \<Rightarrow>
               if tok \<noteq> [] then Allow_loop (append_slice methods tok) v' vs
               else Allow_loop methods v' vs))"
  by pat_completeness auto


lemma length_dropWhile_less:
  "v \<noteq> [] \<Longrightarrow> P (hd v) \<Longrightarrow> length (dropWhile P v) < length v"
  by (cases v) (simp_all add: length_dropWhile_le less_Suc_eq_le)

lemma skipElem_suffix: "suffix (skipElem v) v"
proof (induction v rule: skipElem.induct)
  case 1
  show ?case by simp
next
  case (2 c rest)
  show ?case
  proof (cases "c = CHR '',''")
    case True
    then show ?thesis by (simp add: skipElem.simps(2))
  next
    case nc: False
    show ?thesis
    proof (cases "c = DQUOTE")
      case True
      obtain t v ok where q: "quoted_body rest = (t, v, ok)"
        by (cases "quoted_body rest") auto
      from "2.IH"(1) [OF nc True] q have "suffix (skipElem v) v" by simp
      from suffix_order.trans [OF this quoted_body_suffix [OF q]]
      have "suffix (skipElem v) rest" .
      with nc True q show ?thesis by (simp add: skipElem.simps(2) suffix_ConsI)
    next
      case False
      with nc "2.IH"(2) show ?thesis by (simp add: skipElem.simps(2) suffix_ConsI)
    qed
  qed
qed

lemma skipElem_stops: "skipElem v = [] \<or> hd (skipElem v) = CHR '',''"
proof (induction v rule: skipElem.induct)
  case 1
  show ?case by simp
next
  case (2 c rest)
  then show ?case by (simp add: skipElem.simps(2))
qed

lemma skipSeps_skipElem_less:
  assumes "skipSeps (skipElem v) \<noteq> []"
  shows "length (skipSeps (skipElem v)) < length v"
proof -
  from assms have ne: "skipElem v \<noteq> []" by (auto simp: skipSeps_def)
  with skipElem_stops [of v] have "isSep (hd (skipElem v))" by (simp add: isSep_def)
  from length_dropWhile_less [of "skipElem v" isSep, OF ne this]
  have "length (skipSeps (skipElem v)) < length (skipElem v)" by (simp add: skipSeps_def)
  also have "\<dots> \<le> length v" by (rule suffix_length_le [OF skipElem_suffix])
  finally show ?thesis .
qed

lemma nextLine_remaining:
  "nextLine vs = (v', Some vs') \<Longrightarrow> remaining v' vs' < remaining [] vs"
proof (induction vs)
  case Nil
  then show ?case by simp
next
  case (Cons l ls)
  show ?case
  proof (cases "skipSeps l = []")
    case True
    with Cons show ?thesis by (simp add: remaining_def)
  next
    case False
    have "length (skipSeps l) \<le> length l"
      unfolding skipSeps_def by (rule length_dropWhile_le)
    with False Cons.prems show ?thesis by (auto simp: remaining_def)
  qed
qed

lemma toNextElem_remaining:
  assumes "toNextElem v vs = (v', Some vs')"
  shows "remaining v' vs' < remaining v vs"
proof (cases "skipSeps (skipElem v) = []")
  case True
  with assms have "nextLine vs = (v', Some vs')" by (simp add: toNextElem_def)
  from nextLine_remaining [OF this] show ?thesis by (simp add: remaining_def)
next
  case False
  with assms have "v' = skipSeps (skipElem v)" "vs' = vs"
    by (simp_all add: toNextElem_def)
  with skipSeps_skipElem_less [OF False] show ?thesis by (simp add: remaining_def)
qed

lemma token_length: "token v = (t, v') \<Longrightarrow> length v' \<le> length v"
  by (auto simp: token_def length_dropWhile_le)

lemma loop_step:
  assumes "(v, Some vs) = toNextElem v0 vs0" and "length v' \<le> length v"
  shows "remaining v' vs < remaining v0 vs0"
proof -
  from assms(1) have "remaining v vs < remaining v0 vs0"
    by (intro toNextElem_remaining) simp
  with assms(2) show ?thesis by (simp add: remaining_def)
qed

termination Allow_loop
proof (relation "measure (\<lambda>(methods, v, vs). remaining v vs)", goal_cases)
  case 1
  show ?case by simp
next
  case (2 methods v0 vs0 x1 x2 vs tok v')
  then have "length v' \<le> length x1" by (intro token_length [of x1 tok]) simp
  with 2 show ?case by (simp add: loop_step)
next
  case (3 methods v0 vs0 x1 x2 vs tok v')
  then have "length v' \<le> length x1" by (intro token_length [of x1 tok]) simp
  with 3 show ?case by (simp add: loop_step)
qed

text \<open>
  \<open>Allow\<close>: nil when the header is absent, a non-nil slice of length 0 when it is
  present and names no method.
\<close>

definition Allow :: "Header \<Rightarrow> string slice" where
  "Allow h =
     (let methods = Allow_loop None [] (lines_of h ''Allow'') in
      if methods = None \<and> length (lines_of h ''Allow'') > 0 then Some [] else methods)"

section \<open>Via\<close>

record ViaEntry =
  ReceivedProto :: string
  ReceivedBy :: string
  Comment :: string

definition ViaEntry_zero :: ViaEntry where
  "ViaEntry_zero = \<lparr>ReceivedProto = [], ReceivedBy = [], Comment = []\<rparr>"

text \<open>
  The body of the loop of \<open>Via\<close> on the line \<open>v\<close> from the start of an element on:
  the entry to append (\<open>None\<close> where the source says \<open>continue\<close>) and the rest of
  the line.
\<close>

definition Via_elem :: "string \<Rightarrow> ViaEntry option \<times> string" where
  "Via_elem v0 =
     (case chomp v0 of
        (proto, v1) \<Rightarrow>
          if proto = [] then (None, v1)
          else
            let proto' = (if CHR ''/'' \<notin> set proto then ''HTTP/'' @ proto else proto) in
            (case chomp v1 of
               (rby, v2) \<Rightarrow>
                 if rby = [] then (None, v2)
                 else if peek v2 = Some CHR ''('' then
                   (case comment v2 of
                      (c, v3) \<Rightarrow>
                        (Some \<lparr>ReceivedProto = proto', ReceivedBy = rby, Comment = c\<rparr>, v3))
                 else (Some \<lparr>ReceivedProto = proto', ReceivedBy = rby, Comment = []\<rparr>, v2)))"

function Via_loop :: "ViaEntry slice \<Rightarrow> string \<Rightarrow> string list \<Rightarrow> ViaEntry slice" where
  "Via_loop entries v0 vs0 =
     (case toNextElem v0 vs0 of
        (_, None) \<Rightarrow> entries
      | (v, Some vs) \<Rightarrow>
          (case Via_elem v of
             (None, v') \<Rightarrow> Via_loop entries v' vs
           | (Some entry, v') \<Rightarrow> Via_loop (append_slice entries entry) v' vs))"
  by pat_completeness auto

lemma skipWS_length: "length (skipWS v) \<le> length v"
  by (simp add: skipWS_def length_dropWhile_le)

lemma chomp_length: "chomp v = (t, v') \<Longrightarrow> length v' \<le> length v"
proof -
  assume "chomp v = (t, v')"
  then have "v' = skipWS (dropWhile isChompChar (skipWS v))"
    by (simp add: chomp_def Let_def)
  moreover have "length (skipWS (dropWhile isChompChar (skipWS v))) \<le> length (skipWS v)"
    by (rule order_trans [OF skipWS_length length_dropWhile_le])
  ultimately show ?thesis using skipWS_length [of v] by simp
qed

lemma comment_body_length: "comment_body d v = (t, v') \<Longrightarrow> length v' \<le> length v"
  by (induction d v arbitrary: t v' rule: comment_body.induct)
     (fastforce split: if_splits nat.splits list.splits prod.splits)+

lemma comment_length: "comment v = (t, v') \<Longrightarrow> length v' \<le> length v"
  by (auto simp: comment_def split: list.splits if_splits dest: comment_body_length)

lemma Via_elem_length: "Via_elem v = (r, v') \<Longrightarrow> length v' \<le> length v"
  unfolding Via_elem_def Let_def
  by (auto split: prod.splits if_splits dest!: chomp_length comment_length)

termination Via_loop
proof (relation "measure (\<lambda>(entries, v, vs). remaining v vs)", goal_cases)
  case 1
  show ?case by simp
next
  case (2 entries v0 vs0 x1 x2 vs r v')
  then have "length v' \<le> length x1" by (intro Via_elem_length [of x1 r]) simp
  with 2 show ?case by (simp add: loop_step)
next
  case (3 entries v0 vs0 x1 x2 vs r v' entry)
  then have "length v' \<le> length x1" by (intro Via_elem_length [of x1 r]) simp
  with 3 show ?case by (simp add: loop_step)
qed

definition Via :: "Header \<Rightarrow> ViaEntry slice" where
  "Via h = Via_loop None [] (lines_of h ''Via'')"


section \<open>Warning\<close>

text \<open>
  \<open>time.Time\<close> is a type of the Go library: any type \<open>'t\<close> whose \<open>0\<close> is the zero
  time. \<open>http.ParseTime\<close> is a parameter of the model; it returns the time, or an error
  (\<open>None\<close>), in which case the time it returns with the error is the zero time.
\<close>

record 't WarningEntry =
  Code :: int
  Agent :: string
  Text :: string
  Date :: 't

definition Warning_elem ::
  "(string \<Rightarrow> 't::zero option) \<Rightarrow> string \<Rightarrow> 't WarningEntry option \<times> string" where
  "Warning_elem ParseTime v0 =
     (case number v0 of
        (code, v1) \<Rightarrow>
          if code = -1 then (None, v1)
          else
            (case consume v1 CHR '' '' of
               (v2, ok) \<Rightarrow>
                 if \<not> ok then (None, v2)
                 else
                   (case chomp v2 of
                      (agent, v3) \<Rightarrow>
                        if agent = [] then (None, v3)
                        else
                          (case quoted v3 of
                             (wtext, v4) \<Rightarrow>
                               (case consume v4 CHR '' '' of
                                  (v5, ok') \<Rightarrow>
                                    if ok' then
                                      (case quoted v5 of
                                         (dateStr, v6) \<Rightarrow>
                                           (Some \<lparr>Code = code, Agent = agent, Text = wtext,
                                              Date = (case ParseTime dateStr of
                                                        None \<Rightarrow> 0 | Some t \<Rightarrow> t)\<rparr>, v6))
                                    else
                                      (Some \<lparr>Code = code, Agent = agent, Text = wtext,
                                         Date = 0\<rparr>, v5))))))"

function Warning_loop ::
  "(string \<Rightarrow> 't::zero option) \<Rightarrow> 't WarningEntry slice \<Rightarrow> string \<Rightarrow> string list
     \<Rightarrow> 't WarningEntry slice" where
  "Warning_loop ParseTime entries v0 vs0 =
     (case toNextElem v0 vs0 of
        (_, None) \<Rightarrow> entries
      | (v, Some vs) \<Rightarrow>
          (case Warning_elem ParseTime v of
             (None, v') \<Rightarrow> Warning_loop ParseTime entries v' vs
           | (Some entry, v') \<Rightarrow> Warning_loop ParseTime (append_slice entries entry) v' vs))"
  by pat_completeness auto

lemma number_length: "number v = (n, v') \<Longrightarrow> length v' \<le> length v"
  by (auto simp: number_def Let_def length_dropWhile_le split: if_splits)

lemma consume_length: "consume v c = (v', ok) \<Longrightarrow> length v' \<le> length v"
  by (auto simp: consume_def split: list.splits if_splits)

lemma consumeQuoted_length: "consumeQuoted v flag = (t, v', ok) \<Longrightarrow> length v' \<le> length v"
  by (auto simp: consumeQuoted_def split: list.splits if_splits dest: quoted_body_length)

lemma quoted_length: "quoted v = (t, v') \<Longrightarrow> length v' \<le> length v"
  by (auto simp: quoted_def split: prod.splits dest: consumeQuoted_length)

lemma Warning_elem_length:
  assumes "Warning_elem ParseTime v = (r, v')"
  shows "length v' \<le> length v"
proof -
  obtain code v1 where n: "number v = (code, v1)" by (cases "number v")
  obtain v2 ok where c1: "consume v1 CHR '' '' = (v2, ok)" by (cases "consume v1 CHR '' ''")
  obtain agent v3 where a: "chomp v2 = (agent, v3)" by (cases "chomp v2")
  obtain wtext v4 where q1: "quoted v3 = (wtext, v4)" by (cases "quoted v3")
  obtain v5 ok' where c2: "consume v4 CHR '' '' = (v5, ok')" by (cases "consume v4 CHR '' ''")
  obtain dateStr v6 where q2: "quoted v5 = (dateStr, v6)" by (cases "quoted v5")
  note le = number_length [OF n] consume_length [OF c1] chomp_length [OF a]
    quoted_length [OF q1] consume_length [OF c2] quoted_length [OF q2]
  from assms have "v' \<in> {v1, v2, v3, v5, v6}"
    by (auto simp: Warning_elem_def n c1 a q1 c2 q2 split: if_splits)
  with le show ?thesis by auto
qed

termination Warning_loop
proof (relation "measure (\<lambda>(ParseTime, entries, v, vs). remaining v vs)", goal_cases)
  case 1
  show ?case by simp
next
  case (2 ParseTime entries v0 vs0 x1 x2 vs r v')
  then have "length v' \<le> length x1" by (intro Warning_elem_length [of ParseTime x1 r]) simp
  with 2 show ?case by (simp add: loop_step)
next
  case (3 ParseTime entries v0 vs0 x1 x2 vs r v' entry)
  then have "length v' \<le> length x1" by (intro Warning_elem_length [of ParseTime x1 r]) simp
  with 3 show ?case by (simp add: loop_step)
qed

definition Warning :: "(string \<Rightarrow> 't::zero option) \<Rightarrow> Header \<Rightarrow> 't WarningEntry slice" where
  "Warning ParseTime h = Warning_loop ParseTime None [] (lines_of h ''Warning'')"

section \<open>Forwarded\<close>

text \<open>\<open>Ext\<close> is a Go map: \<open>None\<close> is the nil map.\<close>

record ForwardedElem =
  By :: string
  For :: string
  Host :: string
  Proto :: string
  Ext :: "(string \<rightharpoonup> string) option"

definition ForwardedElem_zero :: ForwardedElem where
  "ForwardedElem_zero = \<lparr>By = [], For = [], Host = [], Proto = [], Ext = None\<rparr>"

text \<open>
  \<open>strings.ToLower\<close> of the Go library, as it acts on ASCII text (the field values of
  RFC 7230): the letters \<open>A\<close> to \<open>Z\<close> are mapped to \<open>a\<close> to \<open>z\<close>.
\<close>

definition toLowerChar :: "char \<Rightarrow> char" where
  "toLowerChar c =
     (if 65 \<le> (of_char c :: nat) \<and> (of_char c :: nat) \<le> 90
      then char_of ((of_char c :: nat) + 32) else c)"

definition ToLower :: "string \<Rightarrow> string" where
  "ToLower s = map toLowerChar s"

text \<open>
  Modelled from the spec: \<open>consumeItem\<close> is called by the Forwarded parser but its body
  is not among the sources; it reads the parameter name and the unquoted value, each
  "a token" in section 4.3.
\<close>

definition consumeItem :: "string \<Rightarrow> string \<times> string" where
  "consumeItem v = token v"

text \<open>The \<open>switch\<close> on the parameter name.\<close>

definition setParam :: "ForwardedElem \<Rightarrow> string \<Rightarrow> string \<Rightarrow> ForwardedElem" where
  "setParam elem name val =
     (if name = ''for'' then elem\<lparr>For := val\<rparr>
      else if name = ''by'' then elem\<lparr>By := val\<rparr>
      else if name = ''host'' then elem\<lparr>Host := val\<rparr>
      else if name = ''proto'' then elem\<lparr>Proto := ToLower val\<rparr>
      else elem\<lparr>Ext := Some ((case Ext elem of None \<Rightarrow> Map.empty | Some m \<Rightarrow> m)(name \<mapsto> val))\<rparr>)"

text \<open>The inner loop of \<open>Forwarded\<close>: the pairs of one element.\<close>

function Forwarded_pairs :: "ForwardedElem \<Rightarrow> string \<Rightarrow> ForwardedElem \<times> string" where
  "Forwarded_pairs elem v0 =
     (case consumeItem v0 of
        (name0, v1) \<Rightarrow>
          let name = ToLower name0 in
          if name = [] then
            (if peek v1 = Some CHR '';'' then Forwarded_pairs elem (tl v1) else (elem, v1))
          else if peek v1 \<noteq> Some CHR ''='' then (elem, v1)
          else
            let v2 = tl v1 in
            if peek v2 = Some DQUOTE then
              (case consumeQuoted v2 True of
                 (val, v3, ok) \<Rightarrow>
                   if \<not> ok then (elem, v3) else Forwarded_pairs (setParam elem name val) v3)
            else
              (case consumeItem v2 of
                 (val, v3) \<Rightarrow> Forwarded_pairs (setParam elem name val) v3))"
  by pat_completeness auto

lemma consumeItem_length: "consumeItem v = (t, v') \<Longrightarrow> length v' \<le> length v"
  by (simp add: consumeItem_def token_length)

lemma peek_tl_length: "peek v = Some c \<Longrightarrow> length (tl v) < length v"
  by (cases v) (simp_all add: peek_def)

termination Forwarded_pairs
proof (relation "measure (\<lambda>(elem, v). length v)", goal_cases)
  case 1
  show ?case by simp
next
  case (2 elem v0 name0 v1 name)
  from 2(1) have "length v1 \<le> length v0" by (intro consumeItem_length [of v0 name0]) simp
  moreover from 2(4) have "length (tl v1) < length v1" by (rule peek_tl_length)
  ultimately show ?case by simp
next
  case (3 elem v0 name0 v1 name v2 val r v3 ok)
  from 3(1) have "length v1 \<le> length v0" by (intro consumeItem_length [of v0 name0]) simp
  moreover from 3(4) have "length (tl v1) < length v1"
    by (cases v1) (simp_all add: peek_def)
  moreover from 3 have "length v3 \<le> length (tl v1)"
    by (intro consumeQuoted_length [of "tl v1" True val v3 ok]) simp
  ultimately show ?case by simp
next
  case (4 elem v0 name0 v1 name v2 val v3)
  from 4(1) have "length v1 \<le> length v0" by (intro consumeItem_length [of v0 name0]) simp
  moreover from 4(4) have "length (tl v1) < length v1"
    by (cases v1) (simp_all add: peek_def)
  moreover from 4 have "length v3 \<le> length (tl v1)"
    by (intro consumeItem_length [of "tl v1" val v3]) simp
  ultimately show ?case by simp
qed

declare Forwarded_pairs.simps [simp del]

lemma Forwarded_pairs_length: "Forwarded_pairs elem v = (r, v') \<Longrightarrow> length v' \<le> length v"
proof (induction elem v arbitrary: r v' rule: Forwarded_pairs.induct)
  case (1 elem v0)
  obtain name0 v1 where n: "consumeItem v0 = (name0, v1)" by (cases "consumeItem v0")
  obtain val v3 ok where q: "consumeQuoted (tl v1) True = (val, v3, ok)"
    by (cases "consumeQuoted (tl v1) True")
  obtain val' v3' where i: "consumeItem (tl v1) = (val', v3')" by (cases "consumeItem (tl v1)")
  have l1: "length v1 \<le> length v0" by (rule consumeItem_length [OF n])
  have l2: "length (tl v1) \<le> length v1" by simp
  have l3: "length v3 \<le> length (tl v1)" by (rule consumeQuoted_length [OF q])
  have l3': "length v3' \<le> length (tl v1)" by (rule consumeItem_length [OF i])
  note unfold = Forwarded_pairs.simps [of elem v0]
  show ?case
  proof (cases "ToLower name0 = []")
    case True
    show ?thesis
    proof (cases "peek v1 = Some CHR '';''")
      case semi: True
      with True n "1.prems" have "Forwarded_pairs elem (tl v1) = (r, v')"
        by (simp add: unfold)
      from "1.IH"(1) [OF n [symmetric] refl True semi this] l1 l2 show ?thesis by simp
    next
      case False
      with True n "1.prems" l1 show ?thesis by (simp add: unfold)
    qed
  next
    case False
    show ?thesis
    proof (cases "peek v1 = Some CHR ''=''")
      case noeq: False
      with False n "1.prems" l1 show ?thesis by (simp add: unfold)
    next
      case eq: True
      show ?thesis
      proof (cases "peek (tl v1) = Some DQUOTE")
        case dq: True
        show ?thesis
        proof (cases ok)
          case True
          with False eq dq n q "1.prems"
          have "Forwarded_pairs (setParam elem (ToLower name0) val) v3 = (r, v')"
            by (simp add: unfold)
          from "1.IH"(2) [OF n [symmetric] refl False _ refl dq q [symmetric] refl _ this]
            eq True l1 l2 l3
          show ?thesis by simp
        next
          case nok: False
          with False eq dq n q "1.prems" l1 l2 l3 show ?thesis by (simp add: unfold)
        qed
      next
        case ndq: False
        with False eq n i "1.prems"
        have "Forwarded_pairs (setParam elem (ToLower name0) val') v3' = (r, v')"
          by (simp add: unfold)
        from "1.IH"(3) [OF n [symmetric] refl False _ refl ndq i [symmetric] this] eq l1 l2 l3'
        show ?thesis by simp
      qed
    qed
  qed
qed

function Forwarded_loop ::
  "ForwardedElem slice \<Rightarrow> string \<Rightarrow> string list \<Rightarrow> ForwardedElem slice" where
  "Forwarded_loop elems v0 vs0 =
     (case iterElems v0 vs0 of
        (_, None) \<Rightarrow> elems
      | (v, Some vs) \<Rightarrow>
          (case Forwarded_pairs ForwardedElem_zero v of
             (elem, v') \<Rightarrow> Forwarded_loop (append_slice elems elem) v' vs))"
  by pat_completeness auto

termination Forwarded_loop
proof (relation "measure (\<lambda>(elems, v, vs). remaining v vs)", goal_cases)
  case 1
  show ?case by simp
next
  case (2 elems v0 vs0 x1 x2 vs elem v')
  then have "length v' \<le> length x1"
    by (intro Forwarded_pairs_length [of ForwardedElem_zero x1 elem]) simp
  with 2 show ?case by (simp add: loop_step iterElems_def)
qed

definition Forwarded :: "Header \<Rightarrow> ForwardedElem slice" where
  "Forwarded h = Forwarded_loop None [] (lines_of h ''Forwarded'')"


section \<open>Builders\<close>

text \<open>
  A \<open>strings.Builder\<close> is the text written so far; each write returns the longer text.

  Modelled from the spec: \<open>writeDelimited\<close> is called by the builders but its body is
  not among the sources; by section 4.4 it writes the opening delimiter, the text with a
  backslash before each delimiter and each backslash, and the closing delimiter.
\<close>

fun escape :: "char \<Rightarrow> char \<Rightarrow> string \<Rightarrow> string" where
  "escape opener closer [] = []"
| "escape opener closer (c # s) =
     (if c = opener \<or> c = closer \<or> c = BSLASH
      then BSLASH # c # escape opener closer s
      else c # escape opener closer s)"

definition writeDelimited :: "string \<Rightarrow> string \<Rightarrow> char \<Rightarrow> char \<Rightarrow> string" where
  "writeDelimited b s opener closer = b @ [opener] @ escape opener closer s @ [closer]"

text \<open>\<open>strings.TrimPrefix\<close> of the Go library.\<close>

definition TrimPrefix :: "string \<Rightarrow> string \<Rightarrow> string" where
  "TrimPrefix s pre = (if prefix pre s then drop (length pre) s else s)"

fun buildVia_loop :: "string \<Rightarrow> nat \<Rightarrow> ViaEntry list \<Rightarrow> string" where
  "buildVia_loop b i [] = b"
| "buildVia_loop b i (entry # entries) =
     (let b1 = (if i > 0 then b @ '', '' else b);
          b2 = b1 @ TrimPrefix (ReceivedProto entry) ''HTTP/'';
          b3 = b2 @ '' '';
          b4 = b3 @ ReceivedBy entry;
          b5 = (if Comment entry \<noteq> []
                then writeDelimited (b4 @ '' '') (Comment entry) CHR ''('' CHR '')''
                else b4)
      in buildVia_loop b5 (Suc i) entries)"

definition buildVia :: "ViaEntry list \<Rightarrow> string" where
  "buildVia entries = buildVia_loop [] 0 entries"

text \<open>\<open>strconv.Itoa\<close> of the Go library: the decimal digits, after a minus sign for a negative number.\<close>

fun digits_of :: "nat \<Rightarrow> string" where
  "digits_of n =
     (if n < 10 then [char_of (48 + n)]
      else digits_of (n div 10) @ [char_of (48 + n mod 10)])"

declare digits_of.simps [simp del]

definition Itoa :: "int \<Rightarrow> string" where
  "Itoa i = (if i < 0 then CHR ''-'' # digits_of (nat (- i)) else digits_of (nat i))"

text \<open>
  \<open>entry.Date.Format(http.TimeFormat)\<close> is a parameter of the model, \<open>Format\<close>;
  \<open>IsZero\<close> holds of the zero time only.
\<close>

fun buildWarning_loop ::
  "('t::zero \<Rightarrow> string) \<Rightarrow> string \<Rightarrow> nat \<Rightarrow> 't WarningEntry list \<Rightarrow> string" where
  "buildWarning_loop Format b i [] = b"
| "buildWarning_loop Format b i (entry # entries) =
     (let b1 = (if i > 0 then b @ '', '' else b);
          b2 = b1 @ Itoa (Code entry);
          b3 = b2 @ '' '';
          b4 = b3 @ Agent entry;
          b5 = b4 @ '' '';
          b6 = writeDelimited b5 (Text entry) DQUOTE DQUOTE;
          b7 = (if Date entry \<noteq> 0
                then b6 @ ('' '' @ [DQUOTE]) @ Format (Date entry) @ [DQUOTE]
                else b6)
      in buildWarning_loop Format b7 (Suc i) entries)"

definition buildWarning :: "('t::zero \<Rightarrow> string) \<Rightarrow> 't WarningEntry list \<Rightarrow> string" where
  "buildWarning Format entries = buildWarning_loop Format [] 0 entries"

text \<open>
  Modelled from the spec: \<open>writeParam\<close> is called by \<open>buildForwarded\<close> but its body is
  not among the sources; by section 4.4 it writes \<open>name=value\<close>, after a \<open>;\<close> when a
  pair was written before, quoting the value if it has a character outside the token
  grammar. It returns that a pair has been written.
\<close>

definition writeParam :: "string \<Rightarrow> bool \<Rightarrow> string \<Rightarrow> string \<Rightarrow> string \<times> bool" where
  "writeParam b wrote name val =
     (let b1 = (if wrote then b @ '';'' else b);
          b2 = b1 @ name @ ''='';
          b3 = (if list_all isTokenChar val then b2 @ val
                else writeDelimited b2 val DQUOTE DQUOTE)
      in (b3, True))"

text \<open>
  \<open>for name, value := range elem.Ext\<close> visits the pairs of the map in an order the Go
  runtime chooses. The builder of the model takes that order as \<open>keys\<close>: the names of
  a map, each once. \<open>range\<close> over the nil map visits nothing.
\<close>

fun writeExt :: "string \<times> bool \<Rightarrow> (string \<rightharpoonup> string) \<Rightarrow> string list \<Rightarrow> string \<times> bool" where
  "writeExt (b, wrote) m [] = (b, wrote)"
| "writeExt (b, wrote) m (name # names) =
     (case m name of
        None \<Rightarrow> writeExt (b, wrote) m names
      | Some val \<Rightarrow> writeExt (writeParam b wrote name val) m names)"

definition buildForwarded_elem ::
  "((string \<rightharpoonup> string) \<Rightarrow> string list) \<Rightarrow> string \<Rightarrow> ForwardedElem \<Rightarrow> string" where
  "buildForwarded_elem keys b elem =
     (let w0 = (b, False);
          w1 = (if For elem \<noteq> [] then writeParam (fst w0) (snd w0) ''for'' (For elem) else w0);
          w2 = (if By elem \<noteq> [] then writeParam (fst w1) (snd w1) ''by'' (By elem) else w1);
          w3 = (if Host elem \<noteq> [] then writeParam (fst w2) (snd w2) ''host'' (Host elem) else w2);
          w4 = (if Proto elem \<noteq> [] then writeParam (fst w3) (snd w3) ''proto'' (Proto elem) else w3);
          w5 = (case Ext elem of None \<Rightarrow> w4 | Some m \<Rightarrow> writeExt w4 m (keys m))
      in fst w5)"

fun buildForwarded_loop ::
  "((string \<rightharpoonup> string) \<Rightarrow> string list) \<Rightarrow> string \<Rightarrow> nat \<Rightarrow> ForwardedElem list \<Rightarrow> string" where
  "buildForwarded_loop keys b i [] = b"
| "buildForwarded_loop keys b i (elem # elems) =
     (let b1 = (if i > 0 then b @ '', '' else b)
      in buildForwarded_loop keys (buildForwarded_elem keys b1 elem) (Suc i) elems)"

definition buildForwarded ::
  "((string \<rightharpoonup> string) \<Rightarrow> string list) \<Rightarrow> ForwardedElem list \<Rightarrow> string" where
  "buildForwarded keys elems = buildForwarded_loop keys [] 0 elems"

text \<open>\<open>h.Set(name, value)\<close> of the Go library: the header has the one line.\<close>

definition SetVia :: "Header \<Rightarrow> ViaEntry list \<Rightarrow> Header" where
  "SetVia h entries = h(''Via'' \<mapsto> [buildVia entries])"

definition SetWarning :: "('t::zero \<Rightarrow> string) \<Rightarrow> Header \<Rightarrow> 't WarningEntry list \<Rightarrow> Header" where
  "SetWarning Format h entries = h(''Warning'' \<mapsto> [buildWarning Format entries])"

definition SetForwarded ::
  "((string \<rightharpoonup> string) \<Rightarrow> string list) \<Rightarrow> Header \<Rightarrow> ForwardedElem list \<Rightarrow> Header" where
  "SetForwarded keys h elems = h(''Forwarded'' \<mapsto> [buildForwarded keys elems])"


section \<open>The element loop, once for all parsers\<close>

text \<open>
  The four parsers run the same loop over the iterator and differ in the body. \<open>run body v vs xs\<close>
  holds when the loop with that body, started on the rest \<open>v\<close> of a line and the lines
  \<open>vs\<close> to come, appends exactly \<open>xs\<close>.
\<close>

declare Allow_loop.simps [simp del] Via_loop.simps [simp del] Warning_loop.simps [simp del]
  Forwarded_loop.simps [simp del]

inductive run :: "(string \<Rightarrow> 'a option \<times> string) \<Rightarrow> string \<Rightarrow> string list \<Rightarrow> 'a list \<Rightarrow> bool"
  for body :: "string \<Rightarrow> 'a option \<times> string" where
  run_stop: "toNextElem v0 vs0 = (v, None) \<Longrightarrow> run body v0 vs0 []"
| run_skip: "toNextElem v0 vs0 = (v, Some vs) \<Longrightarrow> body v = (None, v') \<Longrightarrow> run body v' vs xs
     \<Longrightarrow> run body v0 vs0 xs"
| run_emit: "toNextElem v0 vs0 = (v, Some vs) \<Longrightarrow> body v = (Some x, v') \<Longrightarrow> run body v' vs xs
     \<Longrightarrow> run body v0 vs0 (x # xs)"

definition Allow_elem :: "string \<Rightarrow> string option \<times> string" where
  "Allow_elem v = (case token v of (tok, v') \<Rightarrow> (if tok \<noteq> [] then Some tok else None, v'))"

definition Forwarded_elem :: "string \<Rightarrow> ForwardedElem option \<times> string" where
  "Forwarded_elem v = (case Forwarded_pairs ForwardedElem_zero v of (elem, v') \<Rightarrow> (Some elem, v'))"

lemma elems_of_append_slice [simp]: "elems_of (append_slice s x) = elems_of s @ [x]"
  by (simp add: elems_of_def append_slice_def split: option.splits)

lemma elems_of_foldl: "elems_of (foldl append_slice s xs) = elems_of s @ xs"
  by (induction xs arbitrary: s) simp_all

lemma elems_of_None [simp]: "elems_of None = []"
  by (simp add: elems_of_def)

lemma run_total:
  assumes "\<And>v. length (snd (body v)) \<le> length v"
  shows "\<exists>xs. run body v vs xs"
proof (induction "remaining v vs" arbitrary: v vs rule: less_induct)
  case less
  obtain v1 r where t: "toNextElem v vs = (v1, r)" by (cases "toNextElem v vs")
  show ?case
  proof (cases r)
    case None
    with t show ?thesis by (auto intro: run_stop)
  next
    case (Some vs1)
    obtain y v2 where b: "body v1 = (y, v2)" by (cases "body v1")
    from assms [of v1] b have "length v2 \<le> length v1" by simp
    with t Some have "remaining v2 vs1 < remaining v vs"
      by (intro loop_step [of v1 vs1 v vs v2]) simp_all
    from less [OF this] obtain xs where "run body v2 vs1 xs" ..
    with t Some b show ?thesis by (cases y) (auto intro: run_skip run_emit)
  qed
qed


lemma Via_loop_run: "run Via_elem v vs xs \<Longrightarrow> Via_loop e v vs = foldl append_slice e xs"
proof (induction arbitrary: e rule: run.induct)
  case (run_stop v0 vs0 v)
  then show ?case by (subst Via_loop.simps) simp
next
  case (run_skip v0 vs0 v vs v' xs)
  then show ?case by (subst Via_loop.simps) simp
next
  case (run_emit v0 vs0 v vs x v' xs)
  then show ?case by (subst Via_loop.simps) simp
qed

lemma Warning_loop_run:
  "run (Warning_elem pt) v vs xs \<Longrightarrow> Warning_loop pt e v vs = foldl append_slice e xs"
proof (induction arbitrary: e rule: run.induct)
  case (run_stop v0 vs0 v)
  then show ?case by (subst Warning_loop.simps) simp
next
  case (run_skip v0 vs0 v vs v' xs)
  then show ?case by (subst Warning_loop.simps) simp
next
  case (run_emit v0 vs0 v vs x v' xs)
  then show ?case by (subst Warning_loop.simps) simp
qed

lemma Allow_loop_run: "run Allow_elem v vs xs \<Longrightarrow> Allow_loop e v vs = foldl append_slice e xs"
proof (induction arbitrary: e rule: run.induct)
  case (run_stop v0 vs0 v)
  then show ?case by (subst Allow_loop.simps) simp
next
  case (run_skip v0 vs0 v vs v' xs)
  then show ?case
    by (subst Allow_loop.simps) (auto simp: Allow_elem_def split: prod.splits if_splits)
next
  case (run_emit v0 vs0 v vs x v' xs)
  then show ?case
    by (subst Allow_loop.simps) (auto simp: Allow_elem_def split: prod.splits if_splits)
qed

lemma Forwarded_loop_run:
  "run Forwarded_elem v vs xs \<Longrightarrow> Forwarded_loop e v vs = foldl append_slice e xs"
proof (induction arbitrary: e rule: run.induct)
  case (run_stop v0 vs0 v)
  then show ?case by (subst Forwarded_loop.simps) (simp add: iterElems_def)
next
  case (run_skip v0 vs0 v vs v' xs)
  then show ?case by (simp add: Forwarded_elem_def split: prod.splits)
next
  case (run_emit v0 vs0 v vs x v' xs)
  then show ?case
    by (subst Forwarded_loop.simps)
       (auto simp: iterElems_def Forwarded_elem_def split: prod.splits)
qed

text \<open>A line whose content is only commas and whitespace.\<close>

definition blank :: "string \<Rightarrow> bool" where
  "blank l = list_all isSep l"

lemma skipSeps_blank: "blank l \<Longrightarrow> skipSeps l = []"
  by (simp add: blank_def skipSeps_def list_all_iff)

lemma nextLine_blank: "list_all blank ls \<Longrightarrow> nextLine ls = ([], None)"
  by (induction ls) (simp_all add: skipSeps_blank)

lemma toNextElem_start: "toNextElem [] vs = nextLine vs"
  by (simp add: toNextElem_def skipSeps_def)

lemma foldl_append_slice_nonempty: "s \<noteq> Some [] \<Longrightarrow> foldl append_slice s xs \<noteq> Some []"
  by (induction xs arbitrary: s) (auto simp: append_slice_def split: option.splits)

lemma Via_elem_suffix_length: "length (snd (Via_elem v)) \<le> length v"
  using Via_elem_length [of v] by (cases "Via_elem v") simp

lemma Warning_elem_suffix_length: "length (snd (Warning_elem pt v)) \<le> length v"
  using Warning_elem_length [of pt v] by (cases "Warning_elem pt v") simp

lemma Allow_elem_suffix_length: "length (snd (Allow_elem v)) \<le> length v"
  using token_length [of v] by (cases "token v") (simp add: Allow_elem_def)

lemma Forwarded_elem_suffix_length: "length (snd (Forwarded_elem v)) \<le> length v"
  using Forwarded_pairs_length [of ForwardedElem_zero v]
  by (cases "Forwarded_pairs ForwardedElem_zero v") (simp add: Forwarded_elem_def)

lemma Via_loop_items: "\<exists>xs. run Via_elem v vs xs \<and> Via_loop e v vs = foldl append_slice e xs"
  using run_total [of Via_elem v vs, OF Via_elem_suffix_length] Via_loop_run by blast

lemma Warning_loop_items:
  "\<exists>xs. run (Warning_elem pt) v vs xs \<and> Warning_loop pt e v vs = foldl append_slice e xs"
  using run_total [of "Warning_elem pt" v vs, OF Warning_elem_suffix_length] Warning_loop_run
  by blast

lemma Allow_loop_items:
  "\<exists>xs. run Allow_elem v vs xs \<and> Allow_loop e v vs = foldl append_slice e xs"
  using run_total [of Allow_elem v vs, OF Allow_elem_suffix_length] Allow_loop_run by blast

lemma Forwarded_loop_items:
  "\<exists>xs. run Forwarded_elem v vs xs \<and> Forwarded_loop e v vs = foldl append_slice e xs"
  using run_total [of Forwarded_elem v vs, OF Forwarded_elem_suffix_length] Forwarded_loop_run
  by blast

lemma Allow_loop_blank: "list_all blank ls \<Longrightarrow> Allow_loop e [] ls = e"
  by (subst Allow_loop.simps) (simp add: toNextElem_start nextLine_blank)

lemma Via_loop_blank: "list_all blank ls \<Longrightarrow> Via_loop e [] ls = e"
  by (subst Via_loop.simps) (simp add: toNextElem_start nextLine_blank)

lemma Warning_loop_blank: "list_all blank ls \<Longrightarrow> Warning_loop pt e [] ls = e"
  by (subst Warning_loop.simps) (simp add: toNextElem_start nextLine_blank)

lemma Forwarded_loop_blank: "list_all blank ls \<Longrightarrow> Forwarded_loop e [] ls = e"
  by (subst Forwarded_loop.simps) (simp add: iterElems_def toNextElem_start nextLine_blank)

section \<open>Absent and empty headers\<close>

text \<open>
  Claim C3, as amended. When the header is absent, each of \<open>Allow\<close>, \<open>Via\<close>,
  \<open>Warning\<close> and \<open>Forwarded\<close> returns nil. When the header is present with at
  least one line and all its lines hold only commas and whitespace, \<open>Allow\<close> returns a
  non-nil slice of length 0; \<open>Via\<close>, \<open>Warning\<close> and \<open>Forwarded\<close> return nil
  there, and on no header do they return a non-nil slice of length 0.
\<close>

theorem absent_and_empty_headers:
  "(h ''Allow'' = None \<longrightarrow> Allow h = None) \<and>
   (h ''Via'' = None \<longrightarrow> Via h = None) \<and>
   (h ''Warning'' = None \<longrightarrow> Warning pt h = None) \<and>
   (h ''Forwarded'' = None \<longrightarrow> Forwarded h = None) \<and>
   (h ''Allow'' = Some ls \<and> ls \<noteq> [] \<and> list_all blank ls \<longrightarrow> Allow h = Some []) \<and>
   (h ''Via'' = Some ls \<and> list_all blank ls \<longrightarrow> Via h = None) \<and>
   (h ''Warning'' = Some ls \<and> list_all blank ls \<longrightarrow> Warning pt h = None) \<and>
   (h ''Forwarded'' = Some ls \<and> list_all blank ls \<longrightarrow> Forwarded h = None) \<and>
   Via h \<noteq> Some [] \<and> Warning pt h \<noteq> Some [] \<and> Forwarded h \<noteq> Some []"
proof -
  have absent: "\<And>name. h name = None \<Longrightarrow> list_all blank (lines_of h name)"
    by (simp add: lines_of_def)
  have present: "\<And>name. h name = Some ls \<Longrightarrow> lines_of h name = ls"
    by (simp add: lines_of_def)
  have a1: "h ''Allow'' = None \<longrightarrow> Allow h = None"
    by (simp add: Allow_def lines_of_def Allow_loop_blank)
  have a2: "h ''Via'' = None \<longrightarrow> Via h = None"
    by (simp add: Via_def Via_loop_blank absent)
  have a3: "h ''Warning'' = None \<longrightarrow> Warning pt h = None"
    by (simp add: Warning_def Warning_loop_blank absent)
  have a4: "h ''Forwarded'' = None \<longrightarrow> Forwarded h = None"
    by (simp add: Forwarded_def Forwarded_loop_blank absent)
  have e1: "h ''Allow'' = Some ls \<and> ls \<noteq> [] \<and> list_all blank ls \<longrightarrow> Allow h = Some []"
    by (simp add: Allow_def present Allow_loop_blank)
  have e2: "h ''Via'' = Some ls \<and> list_all blank ls \<longrightarrow> Via h = None"
    by (simp add: Via_def present Via_loop_blank)
  have e3: "h ''Warning'' = Some ls \<and> list_all blank ls \<longrightarrow> Warning pt h = None"
    by (simp add: Warning_def present Warning_loop_blank)
  have e4: "h ''Forwarded'' = Some ls \<and> list_all blank ls \<longrightarrow> Forwarded h = None"
    by (simp add: Forwarded_def present Forwarded_loop_blank)
  have n1: "Via h \<noteq> Some []"
  proof -
    obtain xs where "Via_loop None [] (lines_of h ''Via'') = foldl append_slice None xs"
      using Via_loop_items by blast
    with foldl_append_slice_nonempty [of None xs] show ?thesis by (simp add: Via_def)
  qed
  have n2: "Warning pt h \<noteq> Some []"
  proof -
    obtain xs where
      "Warning_loop pt None [] (lines_of h ''Warning'') = foldl append_slice None xs"
      using Warning_loop_items by blast
    with foldl_append_slice_nonempty [of None xs] show ?thesis by (simp add: Warning_def)
  qed
  have n3: "Forwarded h \<noteq> Some []"
  proof -
    obtain xs where
      "Forwarded_loop None [] (lines_of h ''Forwarded'') = foldl append_slice None xs"
      using Forwarded_loop_items by blast
    with foldl_append_slice_nonempty [of None xs] show ?thesis by (simp add: Forwarded_def)
  qed
  from a1 a2 a3 a4 e1 e2 e3 e4 n1 n2 n3 show ?thesis by blast
qed


text \<open>The theorem at the empty header map and at headers whose two lines are blank.\<close>

theorem absent_and_empty_headers_witness:
  "Allow Map.empty = None \<and> Via Map.empty = None \<and>
   Warning (\<lambda>s. None :: nat option) Map.empty = None \<and> Forwarded Map.empty = None \<and>
   list_all blank ['' '', '', ,''] \<and>
   Allow [''Allow'' \<mapsto> ['' '', '', ,'']] = Some [] \<and>
   Via [''Via'' \<mapsto> ['' '', '', ,'']] = None \<and>
   Warning (\<lambda>s. None :: nat option) [''Warning'' \<mapsto> ['' '', '', ,'']] = None \<and>
   Forwarded [''Forwarded'' \<mapsto> ['' '', '', ,'']] = None"
proof -
  have b: "list_all blank ['' '', '', ,'']"
    by (simp add: blank_def isSep_def isWS_def)
  show ?thesis
    using b
      absent_and_empty_headers [of Map.empty "\<lambda>s. None :: nat option" "[]"]
      absent_and_empty_headers [of "[''Allow'' \<mapsto> ['' '', '', ,'']]" "\<lambda>s. None :: nat option" "['' '', '', ,'']"]
      absent_and_empty_headers [of "[''Via'' \<mapsto> ['' '', '', ,'']]" "\<lambda>s. None :: nat option" "['' '', '', ,'']"]
      absent_and_empty_headers [of "[''Warning'' \<mapsto> ['' '', '', ,'']]" "\<lambda>s. None :: nat option" "['' '', '', ,'']"]
      absent_and_empty_headers [of "[''Forwarded'' \<mapsto> ['' '', '', ,'']]" "\<lambda>s. None :: nat option" "['' '', '', ,'']"]
    by simp
qed


text \<open>
  Claim C3 as stated fails: the header is present and its content is a comma between
  spaces, and \<open>Via\<close>, \<open>Warning\<close> and \<open>Forwarded\<close> return nil, the signal of an
  absent header.
\<close>

theorem empty_header_counterexample:
  "list_all blank ['' , ''] \<and> Via [''Via'' \<mapsto> ['' , '']] = None \<and>
   Warning (\<lambda>s. None :: nat option) [''Warning'' \<mapsto> ['' , '']] = None \<and>
   Forwarded [''Forwarded'' \<mapsto> ['' , '']] = None"
  by code_simp


section \<open>Via: the received protocol and the received-by text\<close>

text \<open>
  Claim C5. An element with a protocol and no received-by text is to be emitted with an
  empty \<open>ReceivedBy\<close>, as the parser tests expect of \<open>"1.0"\<close>. The parser skips the
  element: on the header \<open>Via: 1.0\<close> it returns nil.
\<close>

theorem Via_empty_received_by: "Via [''Via'' \<mapsto> [''1.0'']] = None"
  by code_simp


text \<open>
  Claim C6. The protocol of an emitted entry is the text \<open>chomp\<close> reads at the start of
  the element, with \<open>HTTP/\<close> before it when it has no slash; an element where
  \<open>chomp\<close> reads nothing gives no entry; and \<open>"1.0 foo"\<close> gives the protocol
  \<open>HTTP/1.0\<close>.
\<close>

theorem Via_received_proto:
  "(Via_elem v = (Some e, v') \<longrightarrow>
      ReceivedProto e =
        (if CHR ''/'' \<in> set (fst (chomp v)) then fst (chomp v) else ''HTTP/'' @ fst (chomp v))) \<and>
   (fst (chomp v) = [] \<longrightarrow> fst (Via_elem v) = None) \<and>
   Via [''Via'' \<mapsto> [''1.0 foo'']] =
     Some [\<lparr>ReceivedProto = ''HTTP/1.0'', ReceivedBy = ''foo'', Comment = []\<rparr>]"
proof -
  have "Via [''Via'' \<mapsto> [''1.0 foo'']] =
     Some [\<lparr>ReceivedProto = ''HTTP/1.0'', ReceivedBy = ''foo'', Comment = []\<rparr>]"
    by code_simp
  moreover have "Via_elem v = (Some e, v') \<longrightarrow>
      ReceivedProto e =
        (if CHR ''/'' \<in> set (fst (chomp v)) then fst (chomp v) else ''HTTP/'' @ fst (chomp v))"
    by (auto simp: Via_elem_def Let_def split: prod.splits if_splits)
  moreover have "fst (chomp v) = [] \<longrightarrow> fst (Via_elem v) = None"
    by (auto simp: Via_elem_def Let_def split: prod.splits if_splits)
  ultimately show ?thesis by blast
qed


text \<open>The theorem at an element with a protocol name, at one without, and at a comma.\<close>

theorem Via_received_proto_witness:
  "Via_elem ''FSTR/3 bar, 1.0 foo'' =
     (Some \<lparr>ReceivedProto = ''FSTR/3'', ReceivedBy = ''bar'', Comment = []\<rparr>, '', 1.0 foo'') \<and>
   ''FSTR/3'' = fst (chomp ''FSTR/3 bar, 1.0 foo'') \<and>
   Via_elem ''1.0 foo'' =
     (Some \<lparr>ReceivedProto = ''HTTP/1.0'', ReceivedBy = ''foo'', Comment = []\<rparr>, []) \<and>
   ''HTTP/1.0'' = ''HTTP/'' @ fst (chomp ''1.0 foo'') \<and>
   fst (chomp '', 1.0 foo'') = [] \<and> fst (Via_elem '', 1.0 foo'') = None"
proof -
  have 1: "Via_elem ''FSTR/3 bar, 1.0 foo'' =
     (Some \<lparr>ReceivedProto = ''FSTR/3'', ReceivedBy = ''bar'', Comment = []\<rparr>, '', 1.0 foo'')"
    by code_simp
  have 2: "Via_elem ''1.0 foo'' =
     (Some \<lparr>ReceivedProto = ''HTTP/1.0'', ReceivedBy = ''foo'', Comment = []\<rparr>, [])"
    by code_simp
  have 3: "fst (chomp '', 1.0 foo'') = []" by code_simp
  have 4: "CHR ''/'' \<in> set (fst (chomp ''FSTR/3 bar, 1.0 foo''))" by code_simp
  have 5: "CHR ''/'' \<notin> set (fst (chomp ''1.0 foo''))" by code_simp
  from 3 Via_received_proto [of "'', 1.0 foo''"] have "fst (Via_elem '', 1.0 foo'') = None"
    by blast
  moreover from 1 4 Via_received_proto [of "''FSTR/3 bar, 1.0 foo''"]
  have "''FSTR/3'' = fst (chomp ''FSTR/3 bar, 1.0 foo'')" by fastforce
  moreover from 2 5 Via_received_proto [of "''1.0 foo''"]
  have "''HTTP/1.0'' = ''HTTP/'' @ fst (chomp ''1.0 foo'')" by fastforce
  ultimately show ?thesis using 1 2 3 by simp
qed

section \<open>Forwarded: the pairs of one element\<close>

lemma not_token_chars [simp]:
  "\<not> isTokenChar CHR ''=''" "\<not> isTokenChar CHR '';''" "\<not> isTokenChar CHR '',''"
  "\<not> isTokenChar DQUOTE" "\<not> isTokenChar CHR '' ''" "\<not> isTokenChar HTAB"
  "\<not> isTokenChar CHR ''(''" "\<not> isTokenChar BSLASH"
  by (simp_all add: isTokenChar_def isDelim_def DQUOTE_def HTAB_def BSLASH_def)

definition stops_token :: "string \<Rightarrow> bool" where
  "stops_token r = (case r of [] \<Rightarrow> True | c # _ \<Rightarrow> \<not> isTokenChar c)"

lemma stops_token_simps [simp]:
  "stops_token []" "stops_token (c # r) = (\<not> isTokenChar c)"
  by (simp_all add: stops_token_def)

lemma token_append:
  "list_all isTokenChar t \<Longrightarrow> stops_token r \<Longrightarrow> token (t @ r) = (t, r)"
  by (cases r) (simp_all add: token_def list_all_iff takeWhile_append2 dropWhile_append2 dropWhile_append3 takeWhile_tail)

lemma consumeItem_append:
  "list_all isTokenChar t \<Longrightarrow> stops_token r \<Longrightarrow> consumeItem (t @ r) = (t, r)"
  by (simp add: consumeItem_def token_append)

lemma consumeItem_stop: "stops_token r \<Longrightarrow> consumeItem r = ([], r)"
  using consumeItem_append [of "[]" r] by simp

lemma ToLower_Nil [simp]: "ToLower t = [] \<longleftrightarrow> t = []"
  by (simp add: ToLower_def)

lemma Forwarded_pairs_semicolon:
  "Forwarded_pairs e (CHR '';'' # r) = Forwarded_pairs e r"
  by (subst Forwarded_pairs.simps) (simp add: consumeItem_stop peek_def)

lemma Forwarded_pairs_stop:
  "stops_token r \<Longrightarrow> peek r \<noteq> Some CHR '';'' \<Longrightarrow> Forwarded_pairs e r = (e, r)"
  by (subst Forwarded_pairs.simps) (simp add: consumeItem_stop)

lemma Forwarded_pairs_token_pair:
  assumes "n \<noteq> []" "list_all isTokenChar n" "x \<noteq> []" "list_all isTokenChar x" "stops_token r"
  shows "Forwarded_pairs e (n @ CHR ''='' # x @ r) = Forwarded_pairs (setParam e (ToLower n) x) r"
proof -
  from assms(3) obtain c x' where x: "x = c # x'" by (cases x) auto
  with assms(4) have "isTokenChar c" by simp
  then have c: "c \<noteq> DQUOTE" by auto
  have 1: "consumeItem (n @ CHR ''='' # x @ r) = (n, CHR ''='' # x @ r)"
    using assms(2) by (intro consumeItem_append) simp_all
  have 2: "consumeItem (x @ r) = (x, r)"
    using assms(4,5) by (intro consumeItem_append)
  have 3: "peek (x @ r) \<noteq> Some DQUOTE" using x c by (simp add: peek_def)
  show ?thesis
    using assms(1) 1 2 3 by (subst Forwarded_pairs.simps) (simp add: peek_def)
qed

text \<open>The \<open>name=value\<close> pairs of one element, joined by \<open>;\<close>.\<close>

fun render_pairs :: "(string \<times> string) list \<Rightarrow> string" where
  "render_pairs [] = []"
| "render_pairs [(n, x)] = n @ CHR ''='' # x"
| "render_pairs ((n, x) # p # ps) = n @ CHR ''='' # x @ CHR '';'' # render_pairs (p # ps)"

definition token_pair :: "string \<times> string \<Rightarrow> bool" where
  "token_pair p = (fst p \<noteq> [] \<and> list_all isTokenChar (fst p) \<and> snd p \<noteq> [] \<and> list_all isTokenChar (snd p))"

definition setParams :: "ForwardedElem \<Rightarrow> (string \<times> string) list \<Rightarrow> ForwardedElem" where
  "setParams e ps = foldl (\<lambda>e p. setParam e (ToLower (fst p)) (snd p)) e ps"

lemma Forwarded_pairs_render_then:
  "list_all token_pair ps \<Longrightarrow> stops_token r \<Longrightarrow>
   Forwarded_pairs e (render_pairs ps @ r) = Forwarded_pairs (setParams e ps) r"
proof (induction ps arbitrary: e rule: render_pairs.induct)
  case 1
  then show ?case by (simp add: setParams_def)
next
  case (2 n x)
  then show ?case
    by (simp add: token_pair_def Forwarded_pairs_token_pair setParams_def)
next
  case (3 n x p ps)
  from 3(2) have tp: "token_pair (n, x)" and rest: "list_all token_pair (p # ps)"
    by simp_all
  from tp have np: "n \<noteq> []" "list_all isTokenChar n" "x \<noteq> []" "list_all isTokenChar x"
    by (simp_all add: token_pair_def)
  have "Forwarded_pairs e (render_pairs ((n, x) # p # ps) @ r) =
        Forwarded_pairs e (n @ CHR ''='' # x @ (CHR '';'' # render_pairs (p # ps) @ r))"
    by simp
  also have "\<dots> = Forwarded_pairs (setParam e (ToLower n) x) (CHR '';'' # render_pairs (p # ps) @ r)"
    using np by (intro Forwarded_pairs_token_pair) simp_all
  also have "\<dots> = Forwarded_pairs (setParam e (ToLower n) x) (render_pairs (p # ps) @ r)"
    by (rule Forwarded_pairs_semicolon)
  also have "\<dots> = Forwarded_pairs (setParams (setParam e (ToLower n) x) (p # ps)) r"
    using rest 3(3) by (rule "3.IH")
  finally show ?case by (simp add: setParams_def)
qed

lemma Forwarded_pairs_render:
  "list_all token_pair ps \<Longrightarrow> stops_token r \<Longrightarrow> peek r \<noteq> Some CHR '';'' \<Longrightarrow>
   Forwarded_pairs e (render_pairs ps @ r) = (setParams e ps, r)"
  by (simp add: Forwarded_pairs_render_then Forwarded_pairs_stop)

text \<open>The invariant of \<open>Ext\<close>: no standard parameter name is a key.\<close>

definition ext_ok :: "ForwardedElem \<Rightarrow> bool" where
  "ext_ok e =
     (case Ext e of None \<Rightarrow> True
      | Some m \<Rightarrow> m ''for'' = None \<and> m ''by'' = None \<and> m ''host'' = None \<and> m ''proto'' = None)"

lemma setParam_ext_ok: "ext_ok e \<Longrightarrow> ext_ok (setParam e name val)"
  by (auto simp: ext_ok_def setParam_def split: option.splits)

lemma Forwarded_pairs_invariant:
  assumes step: "\<And>e n x. P e \<Longrightarrow> P (setParam e n x)"
  shows "P e \<Longrightarrow> P (fst (Forwarded_pairs e v))"
proof (induction e v rule: Forwarded_pairs.induct)
  case (1 elem v0)
  obtain name0 v1 where n: "consumeItem v0 = (name0, v1)" by (cases "consumeItem v0")
  obtain val v3 ok where q: "consumeQuoted (tl v1) True = (val, v3, ok)"
    by (cases "consumeQuoted (tl v1) True")
  obtain val' v3' where i: "consumeItem (tl v1) = (val', v3')" by (cases "consumeItem (tl v1)")
  note unfold = Forwarded_pairs.simps [of elem v0]
  show ?case
  proof (cases "ToLower name0 = []")
    case True
    show ?thesis
    proof (cases "peek v1 = Some CHR '';''")
      case semi: True
      from "1.IH"(1) [OF n [symmetric] refl True semi "1.prems"] True semi n
      show ?thesis by (simp add: unfold)
    next
      case False
      with True n "1.prems" show ?thesis by (simp add: unfold)
    qed
  next
    case False
    show ?thesis
    proof (cases "peek v1 = Some CHR ''=''")
      case noeq: False
      with False n "1.prems" show ?thesis by (simp add: unfold)
    next
      case eq: True
      have P': "\<And>x. P (setParam elem (ToLower name0) x)" by (rule step [OF "1.prems"])
      show ?thesis
      proof (cases "peek (tl v1) = Some DQUOTE")
        case dq: True
        show ?thesis
        proof (cases ok)
          case True
          from "1.IH"(2) [OF n [symmetric] refl False _ refl dq q [symmetric] refl _ P']
            False eq dq n q True
          show ?thesis by (simp add: unfold)
        next
          case nok: False
          with False eq dq n q "1.prems" show ?thesis by (simp add: unfold)
        qed
      next
        case ndq: False
        from "1.IH"(3) [OF n [symmetric] refl False _ refl ndq i [symmetric] P'] False eq ndq n i
        show ?thesis by (simp add: unfold)
      qed
    qed
  qed
qed

lemma Forwarded_pairs_ext_ok: "ext_ok e \<Longrightarrow> ext_ok (fst (Forwarded_pairs e v))"
  by (rule Forwarded_pairs_invariant) (rule setParam_ext_ok)

lemma run_list_all:
  assumes "run body v vs xs" and "\<And>w x w'. body w = (Some x, w') \<Longrightarrow> P x"
  shows "list_all P xs"
  using assms by (induction rule: run.induct) auto


lemma Forwarded_loop_ext_ok: "list_all ext_ok (elems_of (Forwarded_loop None v vs))"
proof -
  obtain xs where r: "run Forwarded_elem v vs xs"
    and l: "Forwarded_loop None v vs = foldl append_slice None xs"
    using Forwarded_loop_items by blast
  have z: "ext_ok ForwardedElem_zero" by (simp add: ext_ok_def ForwardedElem_zero_def)
  have "\<And>w x w'. Forwarded_elem w = (Some x, w') \<Longrightarrow> ext_ok x"
  proof -
    fix w x w'
    assume "Forwarded_elem w = (Some x, w')"
    then have "fst (Forwarded_pairs ForwardedElem_zero w) = x"
      by (auto simp: Forwarded_elem_def split: prod.splits)
    with Forwarded_pairs_ext_ok [OF z, of w] show "ext_ok x" by simp
  qed
  with r have "list_all ext_ok xs" by (rule run_list_all)
  with l show ?thesis by (simp add: elems_of_foldl)
qed

text \<open>The field of a standard parameter, and the value of the last pair with a given name.\<close>

definition std_field :: "string \<Rightarrow> ForwardedElem \<Rightarrow> string" where
  "std_field name e =
     (if name = ''for'' then For e else if name = ''by'' then By e
      else if name = ''host'' then Host e else Proto e)"

definition last_value :: "string \<Rightarrow> (string \<times> string) list \<Rightarrow> string option" where
  "last_value name ps =
     (let qs = filter (\<lambda>p. ToLower (fst p) = name) ps
      in if qs = [] then None else Some (snd (last qs)))"

definition std_names :: "string set" where
  "std_names = {''for'', ''by'', ''host'', ''proto''}"

lemma std_field_setParam:
  "name \<in> std_names \<Longrightarrow>
   std_field name (setParam e n x) =
     (if n = name then (if name = ''proto'' then ToLower x else x) else std_field name e)"
  by (auto simp: std_names_def std_field_def setParam_def)

lemma last_value_snoc:
  "last_value name (ps @ [p]) =
     (if ToLower (fst p) = name then Some (snd p) else last_value name ps)"
  by (simp add: last_value_def)

lemma std_field_setParams:
  "name \<in> std_names \<Longrightarrow>
   std_field name (setParams e ps) =
     (case last_value name ps of
        None \<Rightarrow> std_field name e
      | Some x \<Rightarrow> if name = ''proto'' then ToLower x else x)"
proof (induction ps rule: rev_induct)
  case Nil
  then show ?case by (simp add: setParams_def last_value_def)
next
  case (snoc p ps)
  have "setParams e (ps @ [p]) = setParam (setParams e ps) (ToLower (fst p)) (snd p)"
    by (simp add: setParams_def)
  with snoc show ?case by (simp add: std_field_setParam last_value_snoc)
qed

lemma skipSeps_start: "v \<noteq> [] \<Longrightarrow> \<not> isSep (hd v) \<Longrightarrow> skipSeps v = v"
  by (cases v) (simp_all add: skipSeps_def)

lemma toNextElem_line:
  "l \<noteq> [] \<Longrightarrow> \<not> isSep (hd l) \<Longrightarrow> toNextElem [] (l # ls) = (l, Some ls)"
  by (simp add: toNextElem_start skipSeps_start)

lemma toNextElem_end: "toNextElem [] [] = ([], None)"
  by (simp add: toNextElem_start)

lemma isTokenChar_not_sep: "isTokenChar c \<Longrightarrow> \<not> isSep c"
  by (auto simp: isSep_def isWS_def)

lemma render_pairs_start:
  "ps \<noteq> [] \<Longrightarrow> list_all token_pair ps \<Longrightarrow>
   render_pairs ps \<noteq> [] \<and> isTokenChar (hd (render_pairs ps))"
  by (induction ps rule: render_pairs.induct)
     (auto simp: token_pair_def neq_Nil_conv)

lemma Forwarded_render:
  assumes "ps \<noteq> []" "list_all token_pair ps"
  shows "Forwarded [''Forwarded'' \<mapsto> [render_pairs ps]] = Some [setParams ForwardedElem_zero ps]"
proof -
  from render_pairs_start [OF assms]
  have "toNextElem [] [render_pairs ps] = (render_pairs ps, Some [])"
    by (intro toNextElem_line) (simp_all add: isTokenChar_not_sep)
  moreover have "Forwarded_pairs ForwardedElem_zero (render_pairs ps) =
      (setParams ForwardedElem_zero ps, [])"
    using Forwarded_pairs_render [OF assms(2), of "[]" ForwardedElem_zero]
    by (simp add: peek_def)
  then have "Forwarded_elem (render_pairs ps) = (Some (setParams ForwardedElem_zero ps), [])"
    by (simp add: Forwarded_elem_def)
  moreover have "run Forwarded_elem [] [] []" by (rule run_stop [OF toNextElem_end])
  ultimately have "run Forwarded_elem [] [render_pairs ps] [setParams ForwardedElem_zero ps]"
    by (rule run_emit)
  from Forwarded_loop_run [OF this, of None] show ?thesis
    by (simp add: Forwarded_def lines_of_def append_slice_def)
qed

text \<open>
  Claim C9. In every element that \<open>Forwarded\<close> returns, \<open>Ext\<close> has none of the keys
  \<open>for\<close>, \<open>by\<close>, \<open>host\<close>, \<open>proto\<close>. An element made of \<open>name=value\<close> pairs
  with token names and values, joined by \<open>;\<close>, parses without error to the element the
  assignments of the \<open>switch\<close> give in order; so the field of a standard parameter holds
  the value of the last pair with that name (lowercased for \<open>proto\<close>), whatever pairs
  with the name came before it.
\<close>

theorem Forwarded_standard_params:
  "list_all ext_ok (elems_of (Forwarded h)) \<and>
   (ps \<noteq> [] \<and> list_all token_pair ps \<longrightarrow>
      Forwarded [''Forwarded'' \<mapsto> [render_pairs ps]] = Some [setParams ForwardedElem_zero ps] \<and>
      (\<forall>name \<in> std_names.
         std_field name (setParams ForwardedElem_zero ps) =
           (case last_value name ps of
              None \<Rightarrow> []
            | Some x \<Rightarrow> if name = ''proto'' then ToLower x else x)))"
proof -
  have z: "\<And>name. name \<in> std_names \<Longrightarrow> std_field name ForwardedElem_zero = []"
    by (simp add: std_field_def ForwardedElem_zero_def)
  have "list_all ext_ok (elems_of (Forwarded h))"
    unfolding Forwarded_def by (rule Forwarded_loop_ext_ok)
  then show ?thesis
    using Forwarded_render [of ps] std_field_setParams [of _ ForwardedElem_zero ps] z
    by (auto split: option.splits)
qed


text \<open>The theorem at an element that repeats \<open>for\<close> and \<open>proto\<close>.\<close>

theorem Forwarded_standard_params_witness:
  "list_all ext_ok (elems_of (Forwarded
      [''Forwarded'' \<mapsto> [''for=a;ext=1;For=b;proto=HTTP;proto=WS'', ''by=c;by=d'']])) \<and>
   list_all token_pair [(''for'', ''a''), (''ext'', ''1''), (''For'', ''b''),
      (''proto'', ''HTTP''), (''proto'', ''WS'')] \<and>
   Forwarded [''Forwarded'' \<mapsto> [''for=a;ext=1;For=b;proto=HTTP;proto=WS'']] =
     Some [\<lparr>By = [], For = ''b'', Host = [], Proto = ''ws'', Ext = Some [''ext'' \<mapsto> ''1'']\<rparr>]"
proof -
  let ?ps = "[(''for'', ''a''), (''ext'', ''1''), (''For'', ''b''),
      (''proto'', ''HTTP''), (''proto'', ''WS'')]"
  have tp: "?ps \<noteq> [] \<and> list_all token_pair ?ps" by code_simp
  have r: "render_pairs ?ps = ''for=a;ext=1;For=b;proto=HTTP;proto=WS''" by simp
  have s: "setParams ForwardedElem_zero ?ps =
    \<lparr>By = [], For = ''b'', Host = [], Proto = ''ws'', Ext = Some [''ext'' \<mapsto> ''1'']\<rparr>"
  proof -
    have l: "ToLower ''for'' = ''for''" "ToLower ''ext'' = ''ext''" "ToLower ''For'' = ''for''"
      "ToLower ''proto'' = ''proto''" "ToLower ''HTTP'' = ''http''" "ToLower ''WS'' = ''ws''"
      by code_simp+
    show ?thesis by (simp add: setParams_def setParam_def ForwardedElem_zero_def l)
  qed
  from Forwarded_standard_params [of
      "[''Forwarded'' \<mapsto> [''for=a;ext=1;For=b;proto=HTTP;proto=WS'', ''by=c;by=d'']]" ?ps] tp
  show ?thesis unfolding r s by blast
qed

section \<open>Forwarded: an unterminated quoted value\<close>

lemma quoted_body_unterminated: "quoted_body b = (t, r, False) \<Longrightarrow> r = []"
proof (induction b arbitrary: t r rule: quoted_body.induct)
  case 1
  then show ?case by simp
next
  case (2 c rest)
  show ?case
  proof (cases "c = DQUOTE")
    case True
    with 2(3) show ?thesis by simp
  next
    case nq: False
    show ?thesis
    proof (cases "c = BSLASH")
      case True
      show ?thesis
      proof (cases rest)
        case Nil
        with nq True 2(3) show ?thesis by simp
      next
        case (Cons x rest')
        obtain t' r' ok' where q: "quoted_body rest' = (t', r', ok')"
          by (cases "quoted_body rest'") auto
        with nq True Cons 2(3) have "ok' = False" "r' = r" by simp_all
        with "2.IH"(1) [OF nq True Cons, of t' r] q show ?thesis by simp
      qed
    next
      case False
      obtain t' r' ok' where q: "quoted_body rest = (t', r', ok')"
        by (cases "quoted_body rest") auto
      with nq False 2(3) have "ok' = False" "r' = r" by simp_all
      with "2.IH"(2) [OF nq False, of t' r] q show ?thesis by simp
    qed
  qed
qed

lemma Forwarded_pairs_unterminated:
  assumes "n \<noteq> []" "list_all isTokenChar n" "\<not> snd (snd (quoted_body b))"
  shows "Forwarded_pairs e (n @ CHR ''='' # DQUOTE # b) = (e, [])"
proof -
  obtain t r where q: "quoted_body b = (t, r, False)"
    using assms(3) by (cases "quoted_body b") auto
  from quoted_body_unterminated [OF q] have r: "r = []" .
  have 1: "consumeItem (n @ CHR ''='' # DQUOTE # b) = (n, CHR ''='' # DQUOTE # b)"
    using assms(2) by (intro consumeItem_append) simp_all
  show ?thesis
    using assms(1) 1 q r
    by (subst Forwarded_pairs.simps) (simp add: peek_def consumeQuoted_def)
qed

text \<open>An element: complete pairs, then a pair whose quoted value is not closed.\<close>

definition unterminated_elem :: "(string \<times> string) list \<Rightarrow> string \<Rightarrow> string \<Rightarrow> string" where
  "unterminated_elem ps n b =
     render_pairs ps @ (if ps = [] then [] else '';'') @ n @ CHR ''='' # DQUOTE # b"

lemma Forwarded_pairs_unterminated_elem:
  assumes "list_all token_pair ps" "n \<noteq> []" "list_all isTokenChar n"
    "\<not> snd (snd (quoted_body b))"
  shows "Forwarded_pairs e (unterminated_elem ps n b) = (setParams e ps, [])"
proof (cases "ps = []")
  case True
  with assms show ?thesis
    by (simp add: unterminated_elem_def Forwarded_pairs_unterminated setParams_def)
next
  case False
  have "Forwarded_pairs e (unterminated_elem ps n b) =
        Forwarded_pairs (setParams e ps) (CHR '';'' # n @ CHR ''='' # DQUOTE # b)"
    using False assms(1) Forwarded_pairs_render_then [of ps "CHR '';'' # n @ CHR ''='' # DQUOTE # b" e]
    by (simp add: unterminated_elem_def)
  with assms show ?thesis
    by (simp add: Forwarded_pairs_semicolon Forwarded_pairs_unterminated)
qed

lemma unterminated_elem_start:
  assumes "list_all token_pair ps" "n \<noteq> []" "list_all isTokenChar n"
  shows "unterminated_elem ps n b \<noteq> [] \<and> \<not> isSep (hd (unterminated_elem ps n b))"
proof (cases "ps = []")
  case True
  with assms(2,3) show ?thesis
    by (cases n) (simp_all add: unterminated_elem_def isTokenChar_not_sep)
next
  case False
  from render_pairs_start [OF False assms(1)] show ?thesis
    by (simp add: unterminated_elem_def isTokenChar_not_sep)
qed

text \<open>
  Claim C8. An element of complete \<open>name=value\<close> pairs followed by a pair whose
  quoted value has no closing quote: the pair loop stops at that value, with nothing of
  the line left to scan, and returns the element as the complete pairs before it set it;
  \<open>Forwarded\<close> emits that element.
\<close>

theorem Forwarded_unterminated_value:
  assumes "list_all token_pair ps" "n \<noteq> []" "list_all isTokenChar n"
    "\<not> snd (snd (quoted_body b))"
  shows "Forwarded_pairs e (unterminated_elem ps n b) = (setParams e ps, []) \<and>
    Forwarded [''Forwarded'' \<mapsto> [unterminated_elem ps n b]] = Some [setParams ForwardedElem_zero ps]"
proof -
  have fp: "\<And>e. Forwarded_pairs e (unterminated_elem ps n b) = (setParams e ps, [])"
    using assms by (rule Forwarded_pairs_unterminated_elem)
  from unterminated_elem_start [OF assms(1-3)]
  have "toNextElem [] [unterminated_elem ps n b] = (unterminated_elem ps n b, Some [])"
    by (intro toNextElem_line) simp_all
  moreover have "Forwarded_elem (unterminated_elem ps n b) =
      (Some (setParams ForwardedElem_zero ps), [])"
    by (simp add: Forwarded_elem_def fp)
  moreover have "run Forwarded_elem [] [] []" by (rule run_stop [OF toNextElem_end])
  ultimately have
    "run Forwarded_elem [] [unterminated_elem ps n b] [setParams ForwardedElem_zero ps]"
    by (rule run_emit)
  from Forwarded_loop_run [OF this, of None] fp show ?thesis
    by (simp add: Forwarded_def lines_of_def append_slice_def)
qed


text \<open>The theorem at \<open>for=1.2.3.4;by=gw;host="open;proto=https, for=5.6.7.8\<close>.\<close>

theorem Forwarded_unterminated_value_witness:
  "list_all token_pair [(''for'', ''1.2.3.4''), (''by'', ''gw'')] \<and>
   \<not> snd (snd (quoted_body ''open;proto=https, for=5.6.7.8'')) \<and>
   unterminated_elem [(''for'', ''1.2.3.4''), (''by'', ''gw'')] ''host'' ''open;proto=https, for=5.6.7.8'' =
     ''for=1.2.3.4;by=gw;host='' @ DQUOTE # ''open;proto=https, for=5.6.7.8'' \<and>
   Forwarded [''Forwarded'' \<mapsto>
       [''for=1.2.3.4;by=gw;host='' @ DQUOTE # ''open;proto=https, for=5.6.7.8'']] =
     Some [\<lparr>By = ''gw'', For = ''1.2.3.4'', Host = [], Proto = [], Ext = None\<rparr>]"
proof -
  let ?ps = "[(''for'', ''1.2.3.4''), (''by'', ''gw'')]"
  let ?b = "''open;proto=https, for=5.6.7.8''"
  have tp: "list_all token_pair ?ps" by code_simp
  have n: "''host'' \<noteq> []" "list_all isTokenChar ''host''" by code_simp+
  have u: "\<not> snd (snd (quoted_body ?b))" by code_simp
  have r: "unterminated_elem ?ps ''host'' ?b = ''for=1.2.3.4;by=gw;host='' @ DQUOTE # ?b"
    by (simp add: unterminated_elem_def)
  have s: "setParams ForwardedElem_zero ?ps =
     \<lparr>By = ''gw'', For = ''1.2.3.4'', Host = [], Proto = [], Ext = None\<rparr>"
  proof -
    have l: "ToLower ''for'' = ''for''" "ToLower ''by'' = ''by''" by code_simp+
    show ?thesis by (simp add: setParams_def setParam_def ForwardedElem_zero_def l)
  qed
  from Forwarded_unterminated_value [OF tp n u, of ForwardedElem_zero]
  have "Forwarded [''Forwarded'' \<mapsto> [unterminated_elem ?ps ''host'' ?b]] =
      Some [setParams ForwardedElem_zero ?ps]"
    by (rule conjunct2)
  then have f: "Forwarded [''Forwarded'' \<mapsto> [''for=1.2.3.4;by=gw;host='' @ DQUOTE # ?b]] =
      Some [\<lparr>By = ''gw'', For = ''1.2.3.4'', Host = [], Proto = [], Ext = None\<rparr>]"
    unfolding r s .
  show ?thesis by (intro conjI tp u r f)
qed

section \<open>Elements and lines of one logical list\<close>

subsection \<open>Comments and quoted strings that are closed\<close>

text \<open>
  A comment or a quoted string that is not closed runs to the end of its line. Whether
  one is closed is read off the same way the scanner reads it: \<open>comment_closed d s\<close>
  follows \<open>comment_body\<close> and tells whether the comment open at depth \<open>d\<close> finds its
  closing parenthesis in \<open>s\<close>; for a quoted string it is the third result of
  \<open>quoted_body\<close>.
\<close>

fun comment_closed :: "nat \<Rightarrow> string \<Rightarrow> bool" where
  "comment_closed d [] = False"
| "comment_closed d (c # rest) =
     (if c = CHR '')'' then
        (case d of 0 \<Rightarrow> True | Suc d' \<Rightarrow> comment_closed d' rest)
      else if c = CHR ''('' then comment_closed (Suc d) rest
      else if c = BSLASH then
        (case rest of [] \<Rightarrow> False | x # rest' \<Rightarrow> comment_closed d rest')
      else comment_closed d rest)"

text \<open>The comment, or the quoted string, that \<open>v\<close> starts with, if any, is closed.\<close>

definition comment_ends :: "string \<Rightarrow> bool" where
  "comment_ends v =
     (case v of [] \<Rightarrow> True
      | c # rest \<Rightarrow> if c = CHR ''('' then comment_closed 0 rest else True)"

definition quoted_ends :: "string \<Rightarrow> bool" where
  "quoted_ends v =
     (case v of [] \<Rightarrow> True
      | c # rest \<Rightarrow> if c = DQUOTE then snd (snd (quoted_body rest)) else True)"

text \<open>
  Every quoted string that the iterator passes over on its way to the next top-level
  comma is closed.
\<close>

function skip_closed :: "string \<Rightarrow> bool" where
  "skip_closed [] = True"
| "skip_closed (c # rest) =
     (if c = CHR '','' then True
      else if c = DQUOTE then
        snd (snd (quoted_body rest)) \<and> skip_closed (fst (snd (quoted_body rest)))
      else skip_closed rest)"
  by pat_completeness auto
termination
proof (relation "measure length")
  fix c :: char and rest :: string
  obtain t v ok where q: "quoted_body rest = (t, v, ok)" by (cases "quoted_body rest") auto
  from quoted_body_length [OF q] q
  show "(fst (snd (quoted_body rest)), c # rest) \<in> measure length" by simp
qed simp_all

declare skip_closed.simps(2) [simp del]

lemma quoted_body_closed:
  "quoted_body w = (s, v, True) \<Longrightarrow> quoted_body (w @ x) = (s, v @ x, True)"
proof (induction w arbitrary: s v rule: quoted_body.induct)
  case 1
  then show ?case by simp
next
  case (2 c rest)
  show ?case
  proof (cases "c = DQUOTE")
    case True
    with 2(3) show ?thesis by auto
  next
    case nq: False
    show ?thesis
    proof (cases "c = BSLASH")
      case True
      show ?thesis
      proof (cases rest)
        case Nil
        with nq True 2(3) show ?thesis by simp
      next
        case (Cons y rest')
        obtain s' v' ok' where q: "quoted_body rest' = (s', v', ok')"
          by (cases "quoted_body rest'") auto
        with nq True Cons 2(3) have e: "s = y # s'" "v' = v" "ok'" by auto
        from "2.IH"(1) [OF nq True Cons, of s' v] q e
        have "quoted_body (rest' @ x) = (s', v @ x, True)" by simp
        with nq True Cons e show ?thesis by simp
      qed
    next
      case False
      obtain s' v' ok' where q: "quoted_body rest = (s', v', ok')"
        by (cases "quoted_body rest") auto
      with nq False 2(3) have e: "s = c # s'" "v' = v" "ok'" by auto
      from "2.IH"(2) [OF nq False, of s' v] q e
      have "quoted_body (rest @ x) = (s', v @ x, True)" by simp
      with nq False e show ?thesis by simp
    qed
  qed
qed

lemma quoted_body_closed_append:
  assumes "snd (snd (quoted_body w))"
  shows "quoted_body (w @ x) = (fst (quoted_body w), fst (snd (quoted_body w)) @ x, True)"
proof -
  obtain s v ok where q: "quoted_body w = (s, v, ok)" by (cases "quoted_body w") auto
  with assms have "quoted_body w = (s, v, True)" by simp
  from quoted_body_closed [OF this] q show ?thesis by simp
qed

lemma comment_body_closed:
  "comment_closed d w \<Longrightarrow>
   comment_body d (w @ x) = (fst (comment_body d w), snd (comment_body d w) @ x)"
proof (induction d w rule: comment_body.induct)
  case (1 d)
  then show ?case by simp
next
  case (2 d c rest)
  show ?case
  proof (cases "c = CHR '')''")
    case True
    show ?thesis
    proof (cases d)
      case 0
      with True show ?thesis by simp
    next
      case (Suc d')
      with True 2(5) have "comment_closed d' rest" by simp
      from "2.IH"(1) [OF True Suc this] True Suc show ?thesis
        by (simp add: split_beta)
    qed
  next
    case np: False
    show ?thesis
    proof (cases "c = CHR ''(''")
      case True
      with np 2(5) have "comment_closed (Suc d) rest" by simp
      from "2.IH"(2) [OF np True this] np True show ?thesis by (simp add: split_beta)
    next
      case no: False
      show ?thesis
      proof (cases "c = BSLASH")
        case True
        show ?thesis
        proof (cases rest)
          case Nil
          with np no True 2(5) show ?thesis by simp
        next
          case (Cons y rest')
          with np no True 2(5) have "comment_closed d rest'" by simp
          from "2.IH"(3) [OF np no True Cons this] np no True Cons show ?thesis
            by (simp add: split_beta)
        qed
      next
        case False
        with np no 2(5) have "comment_closed d rest" by simp
        from "2.IH"(4) [OF np no False this] np no False show ?thesis
          by (simp add: split_beta)
      qed
    qed
  qed
qed

subsection \<open>What the scanner reads before a comma\<close>

lemma takeWhile_comma: "\<not> P CHR '','' \<Longrightarrow> takeWhile P (w @ CHR '','' # t) = takeWhile P w"
  by (induction w) simp_all

lemma dropWhile_comma:
  "\<not> P CHR '','' \<Longrightarrow> dropWhile P (w @ CHR '','' # t) = dropWhile P w @ CHR '','' # t"
  by (induction w) simp_all

lemma not_comma [simp]:
  "\<not> isWS CHR '',''" "\<not> isChompChar CHR '',''" "\<not> isDigit CHR '',''"
  by (simp_all add: isWS_def HTAB_def isChompChar_def isDigit_def)

lemma peek_comma:
  "c \<noteq> CHR '','' \<Longrightarrow> peek (w @ CHR '','' # t) = Some c \<longleftrightarrow> peek w = Some c"
  by (cases w) (auto simp: peek_def)

lemma tl_comma: "peek w = Some c \<Longrightarrow> tl (w @ CHR '','' # t) = tl w @ CHR '','' # t"
  by (cases w) (simp_all add: peek_def)

lemma token_comma: "token (w @ CHR '','' # t) = (fst (token w), snd (token w) @ CHR '','' # t)"
  by (simp add: token_def takeWhile_comma dropWhile_comma)

lemma consumeItem_comma:
  "consumeItem (w @ CHR '','' # t) = (fst (consumeItem w), snd (consumeItem w) @ CHR '','' # t)"
  by (simp add: consumeItem_def token_comma)

lemma skipWS_comma: "skipWS (w @ CHR '','' # t) = skipWS w @ CHR '','' # t"
  by (simp add: skipWS_def dropWhile_comma)

lemma chomp_comma: "chomp (w @ CHR '','' # t) = (fst (chomp w), snd (chomp w) @ CHR '','' # t)"
  by (simp add: chomp_def Let_def skipWS_comma takeWhile_comma dropWhile_comma)

lemma number_comma: "number (w @ CHR '','' # t) = (fst (number w), snd (number w) @ CHR '','' # t)"
  by (simp add: number_def Let_def takeWhile_comma dropWhile_comma)

lemma consume_comma:
  "c \<noteq> CHR '','' \<Longrightarrow>
   consume (w @ CHR '','' # t) c = (fst (consume w c) @ CHR '','' # t, snd (consume w c))"
  by (cases w) (simp_all add: consume_def)

lemma comment_comma:
  assumes "comment_ends w"
  shows "comment (w @ CHR '','' # t) = (fst (comment w), snd (comment w) @ CHR '','' # t)"
proof (cases w)
  case Nil
  then show ?thesis by (simp add: comment_def)
next
  case (Cons c rest)
  show ?thesis
  proof (cases "c = CHR ''(''")
    case True
    with assms Cons have "comment_closed 0 rest" by (simp add: comment_ends_def)
    from comment_body_closed [OF this] True Cons show ?thesis by (simp add: comment_def)
  next
    case False
    with Cons show ?thesis by (simp add: comment_def)
  qed
qed

lemma consumeQuoted_comma:
  assumes "quoted_ends w"
  shows "consumeQuoted (w @ CHR '','' # t) flag =
    (fst (consumeQuoted w flag), fst (snd (consumeQuoted w flag)) @ CHR '','' # t,
     snd (snd (consumeQuoted w flag)))"
proof (cases w)
  case Nil
  then show ?thesis by (simp add: consumeQuoted_def DQUOTE_def)
next
  case (Cons c rest)
  show ?thesis
  proof (cases "c = DQUOTE")
    case True
    with assms Cons have "snd (snd (quoted_body rest))" by (simp add: quoted_ends_def)
    from quoted_body_closed_append [OF this] this True Cons show ?thesis
      by (simp add: consumeQuoted_def)
  next
    case False
    with Cons show ?thesis by (simp add: consumeQuoted_def)
  qed
qed

lemma quoted_comma:
  assumes "quoted_ends w"
  shows "quoted (w @ CHR '','' # t) = (fst (quoted w), snd (quoted w) @ CHR '','' # t)"
  by (simp add: quoted_def consumeQuoted_comma [OF assms] split_beta)

lemma skipElem_comma:
  "skip_closed v \<Longrightarrow> skipElem (v @ CHR '','' # t) = skipElem v @ CHR '','' # t"
proof (induction v rule: skipElem.induct)
  case 1
  show ?case by (simp add: skipElem.simps(2))
next
  case (2 c rest)
  show ?case
  proof (cases "c = CHR '',''")
    case True
    then show ?thesis by (simp add: skipElem.simps(2))
  next
    case nc: False
    show ?thesis
    proof (cases "c = DQUOTE")
      case True
      with nc 2(3) have ok: "snd (snd (quoted_body rest))"
        and cl: "skip_closed (fst (snd (quoted_body rest)))"
        by (simp_all add: skip_closed.simps(2))
      from "2.IH"(1) [OF nc True cl] quoted_body_closed_append [OF ok] nc True
      show ?thesis by (simp add: skipElem.simps(2))
    next
      case False
      with nc 2(3) have "skip_closed rest" by (simp add: skip_closed.simps(2))
      from "2.IH"(2) [OF nc False this] nc False show ?thesis by (simp add: skipElem.simps(2))
    qed
  qed
qed

lemma skipSeps_comma:
  "skipSeps (x @ CHR '','' # t) =
     (if skipSeps x = [] then skipSeps t else skipSeps x @ CHR '','' # t)"
proof -
  have c: "isSep CHR '',''" by (simp add: isSep_def)
  show ?thesis by (induction x) (simp_all add: skipSeps_def c)
qed

subsection \<open>The loop on a line that is followed by a comma\<close>

lemma nextLine_Cons_cong: "skipSeps t' = skipSeps t \<Longrightarrow> nextLine (t' # vs) = nextLine (t # vs)"
  by simp

lemma toNextElem_inside:
  "skipSeps (skipElem v) \<noteq> [] \<Longrightarrow> toNextElem v vs = (skipSeps (skipElem v), Some vs)"
  by (simp add: toNextElem_def)

lemma toNextElem_outside:
  "skipSeps (skipElem v) = [] \<Longrightarrow> toNextElem v vs = nextLine vs"
  by (simp add: toNextElem_def)

lemma toNextElem_comma_inside:
  "skip_closed v \<Longrightarrow> skipSeps (skipElem v) \<noteq> [] \<Longrightarrow>
   toNextElem (v @ CHR '','' # t) vs = (skipSeps (skipElem v) @ CHR '','' # t, Some vs)"
  by (simp add: toNextElem_def skipElem_comma skipSeps_comma)

lemma toNextElem_comma_outside:
  "skip_closed v \<Longrightarrow> skipSeps (skipElem v) = [] \<Longrightarrow>
   toNextElem (v @ CHR '','' # t) vs = nextLine (t # vs)"
  by (simp add: toNextElem_def skipElem_comma skipSeps_comma)

lemma run_cong:
  assumes "run body v vs xs" and "toNextElem v' vs' = toNextElem v vs"
  shows "run body v' vs' xs"
  using assms(1)
proof (cases rule: run.cases)
  case (run_stop w)
  with assms(2) show ?thesis by (auto intro: run.run_stop)
next
  case (run_skip w ws w')
  with assms(2) show ?thesis by (auto intro: run.run_skip)
next
  case (run_emit w ws x w' ys)
  with assms(2) show ?thesis by (auto intro: run.run_emit)
qed

text \<open>
  A line is closed for a parser when nothing that the parser reads in it, and nothing
  that the iterator passes over, is a comment or a quoted string left open at the end of
  the line. \<open>closed_rest body bclosed n v\<close> follows the loop from the rest \<open>v\<close> of the
  line: the iterator's way to the next element is closed, the body's reading of that
  element is closed (\<open>bclosed\<close>), and so on from where the body stops. The loop takes at
  least one character for each element, so that the fuel \<open>n\<close>, one more than the length
  of the line, is never used up.
\<close>

fun closed_rest ::
  "(string \<Rightarrow> 'a option \<times> string) \<Rightarrow> (string \<Rightarrow> bool) \<Rightarrow> nat \<Rightarrow> string \<Rightarrow> bool" where
  "closed_rest body bclosed 0 v = False"
| "closed_rest body bclosed (Suc n) v =
     (skip_closed v \<and>
      (let w = skipSeps (skipElem v) in
       if w = [] then True else bclosed w \<and> closed_rest body bclosed n (snd (body w))))"

definition line_closed ::
  "(string \<Rightarrow> 'a option \<times> string) \<Rightarrow> (string \<Rightarrow> bool) \<Rightarrow> string \<Rightarrow> bool" where
  "line_closed body bclosed l =
     (let w = skipSeps l in
      if w = [] then True
      else bclosed w \<and> closed_rest body bclosed (Suc (length l)) (snd (body w)))"

lemma closed_rest_fuel:
  assumes len: "\<And>w. length (snd (body w)) \<le> length w"
  shows "length v < n \<Longrightarrow> length v < m \<Longrightarrow>
    closed_rest body bclosed n v = closed_rest body bclosed m v"
proof (induction n arbitrary: m v)
  case 0
  then show ?case by simp
next
  case (Suc n)
  from Suc.prems(2) obtain m' where m: "m = Suc m'" by (cases m) auto
  show ?case
  proof (cases "skipSeps (skipElem v) = []")
    case True
    with m show ?thesis by simp
  next
    case False
    let ?w = "skipSeps (skipElem v)"
    from skipSeps_skipElem_less [OF False] len [of ?w]
    have "length (snd (body ?w)) < length v" by simp
    with Suc.prems m have "length (snd (body ?w)) < n" "length (snd (body ?w)) < m'"
      by simp_all
    from Suc.IH [OF this] False m show ?thesis by (simp add: Let_def)
  qed
qed

lemma run_join_comma:
  assumes loc: "\<And>w t. bclosed w \<Longrightarrow>
      body (w @ CHR '','' # t) = (fst (body w), snd (body w) @ CHR '','' # t)"
    and eq: "skipSeps t' = skipSeps t"
  shows "closed_rest body bclosed n v \<Longrightarrow> run body v (t # vs) xs \<Longrightarrow>
    run body (v @ CHR '','' # t') vs xs"
proof (induction n arbitrary: v xs)
  case 0
  then show ?case by simp
next
  case (Suc n)
  from Suc.prems(1) have sc: "skip_closed v" by simp
  show ?case
  proof (cases "skipSeps (skipElem v) = []")
    case True
    have "toNextElem (v @ CHR '','' # t') vs = nextLine (t' # vs)"
      by (rule toNextElem_comma_outside [OF sc True])
    also have "\<dots> = nextLine (t # vs)" by (rule nextLine_Cons_cong [OF eq])
    also have "\<dots> = toNextElem v (t # vs)" by (rule toNextElem_outside [OF True, symmetric])
    finally show ?thesis by (rule run_cong [OF Suc.prems(2)])
  next
    case False
    let ?w = "skipSeps (skipElem v)"
    from Suc.prems(1) False have bc: "bclosed ?w"
      and cr: "closed_rest body bclosed n (snd (body ?w))"
      by (simp_all add: Let_def)
    have tn: "toNextElem v (t # vs) = (?w, Some (t # vs))" by (rule toNextElem_inside [OF False])
    have tn': "toNextElem (v @ CHR '','' # t') vs = (?w @ CHR '','' # t', Some vs)"
      by (rule toNextElem_comma_inside [OF sc False])
    have b: "body (?w @ CHR '','' # t') = (fst (body ?w), snd (body ?w) @ CHR '','' # t')"
      by (rule loc [OF bc])
    from Suc.prems(2) show ?thesis
    proof (cases rule: run.cases)
      case (run_stop w)
      with tn show ?thesis by simp
    next
      case (run_skip w ws w')
      with tn have w: "w = ?w" "ws = t # vs" by simp_all
      with run_skip have w': "w' = snd (body ?w)" and none: "fst (body ?w) = None" by simp_all
      from run_skip(3) w w' have "run body (snd (body ?w)) (t # vs) xs" by simp
      from Suc.IH [OF cr this] have "run body (snd (body ?w) @ CHR '','' # t') vs xs" .
      with b none show ?thesis by (intro run.run_skip [OF tn']) simp_all
    next
      case (run_emit w ws x w' ys)
      with tn have w: "w = ?w" "ws = t # vs" by simp_all
      with run_emit have w': "w' = snd (body ?w)" and some: "fst (body ?w) = Some x" by simp_all
      from run_emit(4) w w' have "run body (snd (body ?w)) (t # vs) ys" by simp
      from Suc.IH [OF cr this] have "run body (snd (body ?w) @ CHR '','' # t') vs ys" .
      with b some show ?thesis unfolding run_emit(1) by (intro run.run_emit [OF tn']) simp_all
    qed
  qed
qed

lemma run_join_lines:
  assumes loc: "\<And>w t. bclosed w \<Longrightarrow>
      body (w @ CHR '','' # t) = (fst (body w), snd (body w) @ CHR '','' # t)"
    and eq: "skipSeps t' = skipSeps t"
    and cl: "line_closed body bclosed p"
    and r: "run body [] (p # t # vs) xs"
  shows "run body [] ((p @ CHR '','' # t') # vs) xs"
proof (cases "skipSeps p = []")
  case True
  have "toNextElem [] ((p @ CHR '','' # t') # vs) = nextLine ((p @ CHR '','' # t') # vs)"
    by (rule toNextElem_start)
  also have "\<dots> = nextLine (t # vs)" using True eq by (simp add: skipSeps_comma)
  also have "\<dots> = toNextElem [] (p # t # vs)" using True by (simp add: toNextElem_start)
  finally show ?thesis by (rule run_cong [OF r])
next
  case False
  let ?w = "skipSeps p"
  from cl False have bc: "bclosed ?w"
    and cr: "closed_rest body bclosed (Suc (length p)) (snd (body ?w))"
    by (simp_all add: line_closed_def Let_def)
  have tn: "toNextElem [] (p # t # vs) = (?w, Some (t # vs))"
    using False by (simp add: toNextElem_start)
  have tn': "toNextElem [] ((p @ CHR '','' # t') # vs) = (?w @ CHR '','' # t', Some vs)"
    using False by (simp add: toNextElem_start skipSeps_comma)
  have b: "body (?w @ CHR '','' # t') = (fst (body ?w), snd (body ?w) @ CHR '','' # t')"
    by (rule loc [OF bc])
  from r show ?thesis
  proof (cases rule: run.cases)
    case (run_stop w)
    with tn show ?thesis by simp
  next
    case (run_skip w ws w')
    with tn have w: "w = ?w" "ws = t # vs" by simp_all
    with run_skip have w': "w' = snd (body ?w)" and none: "fst (body ?w) = None" by simp_all
    from run_skip(3) w w' have "run body (snd (body ?w)) (t # vs) xs" by simp
    from run_join_comma [of bclosed body, OF loc eq cr this]
    have "run body (snd (body ?w) @ CHR '','' # t') vs xs" .
    with b none show ?thesis by (intro run.run_skip [OF tn']) simp_all
  next
    case (run_emit w ws x w' ys)
    with tn have w: "w = ?w" "ws = t # vs" by simp_all
    with run_emit have w': "w' = snd (body ?w)" and some: "fst (body ?w) = Some x" by simp_all
    from run_emit(4) w w' have "run body (snd (body ?w)) (t # vs) ys" by simp
    from run_join_comma [of bclosed body, OF loc eq cr this]
    have "run body (snd (body ?w) @ CHR '','' # t') vs ys" .
    with b some show ?thesis unfolding run_emit(1) by (intro run.run_emit [OF tn']) simp_all
  qed
qed

lemma nextLine_append:
  "nextLine (vs1 @ vs2) =
     (case nextLine vs1 of
        (v, None) \<Rightarrow> nextLine vs2
      | (v, Some vs') \<Rightarrow> (v, Some (vs' @ vs2)))"
  by (induction vs1) (simp_all add: Let_def)

lemma toNextElem_append:
  "toNextElem v (vs1 @ vs2) =
     (case toNextElem v vs1 of
        (w, None) \<Rightarrow> toNextElem [] vs2
      | (w, Some vs') \<Rightarrow> (w, Some (vs' @ vs2)))"
proof (cases "skipSeps (skipElem v) = []")
  case True
  then show ?thesis
    by (simp add: toNextElem_outside toNextElem_start nextLine_append
          split: prod.splits option.splits)
next
  case False
  then show ?thesis by (simp add: toNextElem_inside)
qed

lemma run_append_lines:
  "run body v vs1 xs1 \<Longrightarrow> run body [] vs2 xs2 \<Longrightarrow> run body v (vs1 @ vs2) (xs1 @ xs2)"
proof (induction rule: run.induct)
  case (run_stop v0 vs0 v)
  then have "toNextElem v0 (vs0 @ vs2) = toNextElem [] vs2" by (simp add: toNextElem_append)
  with run_stop(2) show ?case by (simp add: run_cong)
next
  case (run_skip v0 vs0 v vs v' xs)
  then have "toNextElem v0 (vs0 @ vs2) = (v, Some (vs @ vs2))" by (simp add: toNextElem_append)
  with run_skip show ?case by (auto intro: run.run_skip)
next
  case (run_emit v0 vs0 v vs x v' xs)
  then have "toNextElem v0 (vs0 @ vs2) = (v, Some (vs @ vs2))" by (simp add: toNextElem_append)
  with run_emit show ?case by (auto intro: run.run_emit)
qed

lemma run_split_lines:
  "run body v vs xs \<Longrightarrow> vs = vs1 @ vs2 \<Longrightarrow>
   \<exists>xs1 xs2. xs = xs1 @ xs2 \<and> run body v vs1 xs1 \<and> run body [] vs2 xs2"
proof (induction arbitrary: vs1 rule: run.induct)
  case (run_stop v0 vs0 v)
  obtain w r where t: "toNextElem v0 vs1 = (w, r)" by (cases "toNextElem v0 vs1")
  show ?case
  proof (cases r)
    case None
    with t run_stop have "toNextElem [] vs2 = (v, None)" by (simp add: toNextElem_append)
    with t None show ?thesis by (auto intro: run.run_stop)
  next
    case (Some vs')
    with t run_stop show ?thesis by (simp add: toNextElem_append)
  qed
next
  case (run_skip v0 vs0 v vs v' xs)
  obtain w r where t: "toNextElem v0 vs1 = (w, r)" by (cases "toNextElem v0 vs1")
  show ?case
  proof (cases r)
    case None
    with t run_skip(1,5) have "toNextElem [] vs2 = (v, Some vs)" by (simp add: toNextElem_append)
    from run.run_skip [OF this run_skip(2,3)] have "run body [] vs2 xs" .
    moreover from t None have "run body v0 vs1 []" by (auto intro: run.run_stop)
    ultimately show ?thesis by (intro exI [of _ "[]"] exI [of _ xs]) simp
  next
    case (Some vs')
    with t run_skip(1,5) have e: "w = v" "vs = vs' @ vs2" by (simp_all add: toNextElem_append)
    from run_skip.IH [OF e(2)] obtain xs1 xs2 where
      x: "xs = xs1 @ xs2" "run body v' vs' xs1" "run body [] vs2 xs2" by blast
    from t Some e have "toNextElem v0 vs1 = (v, Some vs')" by simp
    from run.run_skip [OF this run_skip(2) x(2)] x(1,3) show ?thesis by blast
  qed
next
  case (run_emit v0 vs0 v vs x v' xs)
  obtain w r where t: "toNextElem v0 vs1 = (w, r)" by (cases "toNextElem v0 vs1")
  show ?case
  proof (cases r)
    case None
    with t run_emit(1,5) have "toNextElem [] vs2 = (v, Some vs)" by (simp add: toNextElem_append)
    from run.run_emit [OF this run_emit(2,3)] have "run body [] vs2 (x # xs)" .
    moreover from t None have "run body v0 vs1 []" by (auto intro: run.run_stop)
    ultimately show ?thesis by (intro exI [of _ "[]"] exI [of _ "x # xs"]) simp
  next
    case (Some vs')
    with t run_emit(1,5) have e: "w = v" "vs = vs' @ vs2" by (simp_all add: toNextElem_append)
    from run_emit.IH [OF e(2)] obtain xs1 xs2 where
      y: "xs = xs1 @ xs2" "run body v' vs' xs1" "run body [] vs2 xs2" by blast
    from t Some e have "toNextElem v0 vs1 = (v, Some vs')" by simp
    from run.run_emit [OF this run_emit(2) y(2)] y(1,3) show ?thesis
      by (intro exI [of _ "x # xs1"] exI [of _ xs2]) simp
  qed
qed

subsection \<open>The bodies of the four parsers before a comma\<close>

lemma Allow_elem_comma:
  "Allow_elem (w @ CHR '','' # t) = (fst (Allow_elem w), snd (Allow_elem w) @ CHR '','' # t)"
  by (cases "token w") (simp add: Allow_elem_def token_comma)

text \<open>The comment of a \<open>Via\<close> element, if it has one, is closed.\<close>

definition Via_closed :: "string \<Rightarrow> bool" where
  "Via_closed w = comment_ends (snd (chomp (snd (chomp w))))"

lemma Via_elem_comma:
  assumes "Via_closed w"
  shows "Via_elem (w @ CHR '','' # t) = (fst (Via_elem w), snd (Via_elem w) @ CHR '','' # t)"
proof -
  let ?t = "CHR '','' # t"
  obtain proto v1 where c1: "chomp w = (proto, v1)" by (cases "chomp w")
  obtain rby v2 where c2: "chomp v1 = (rby, v2)" by (cases "chomp v1")
  obtain c v3 where c3: "comment v2 = (c, v3)" by (cases "comment v2")
  have c1': "chomp (w @ ?t) = (proto, v1 @ ?t)" by (simp add: chomp_comma c1)
  have c2': "chomp (v1 @ ?t) = (rby, v2 @ ?t)" by (simp add: chomp_comma c2)
  from assms c1 c2 have "comment_ends v2" by (simp add: Via_closed_def)
  from comment_comma [OF this, of t] c3 have c3': "comment (v2 @ ?t) = (c, v3 @ ?t)" by simp
  have p: "peek (v2 @ ?t) = Some CHR ''('' \<longleftrightarrow> peek v2 = Some CHR ''(''"
    by (simp add: peek_comma)
  show ?thesis by (simp add: Via_elem_def c1 c2 c3 c1' c2' c3' p Let_def)
qed

text \<open>
  The quoted strings that the body of \<open>Warning\<close> reads in an element, the text and the
  date, are closed.
\<close>

definition Warning_closed :: "string \<Rightarrow> bool" where
  "Warning_closed w =
     (case number w of
        (code, v1) \<Rightarrow>
          (case consume v1 CHR '' '' of
             (v2, ok) \<Rightarrow>
               (case chomp v2 of
                  (agent, v3) \<Rightarrow>
                    if code = -1 \<or> \<not> ok \<or> agent = [] then True
                    else
                      quoted_ends v3 \<and>
                      (case consume (snd (quoted v3)) CHR '' '' of
                         (v5, ok') \<Rightarrow> if ok' then quoted_ends v5 else True))))"

lemma Warning_elem_comma:
  assumes "Warning_closed w"
  shows "Warning_elem pt (w @ CHR '','' # t) =
    (fst (Warning_elem pt w), snd (Warning_elem pt w) @ CHR '','' # t)"
proof -
  let ?t = "CHR '','' # t"
  obtain code v1 where n: "number w = (code, v1)" by (cases "number w")
  obtain v2 ok where c1: "consume v1 CHR '' '' = (v2, ok)" by (cases "consume v1 CHR '' ''")
  obtain agent v3 where a: "chomp v2 = (agent, v3)" by (cases "chomp v2")
  obtain wtext v4 where q1: "quoted v3 = (wtext, v4)" by (cases "quoted v3")
  obtain v5 ok' where c2: "consume v4 CHR '' '' = (v5, ok')" by (cases "consume v4 CHR '' ''")
  obtain dateStr v6 where q2: "quoted v5 = (dateStr, v6)" by (cases "quoted v5")
  have n': "number (w @ ?t) = (code, v1 @ ?t)" by (simp add: number_comma n)
  have c1': "consume (v1 @ ?t) CHR '' '' = (v2 @ ?t, ok)" by (simp add: consume_comma c1)
  have a': "chomp (v2 @ ?t) = (agent, v3 @ ?t)" by (simp add: chomp_comma a)
  have c2': "consume (v4 @ ?t) CHR '' '' = (v5 @ ?t, ok')" by (simp add: consume_comma c2)
  show ?thesis
  proof (cases "code = -1 \<or> \<not> ok \<or> agent = []")
    case True
    then show ?thesis by (auto simp: Warning_elem_def n c1 a n' c1' a')
  next
    case False
    with assms n c1 a q1 c2 have e1: "quoted_ends v3" and e2: "ok' \<longrightarrow> quoted_ends v5"
      by (simp_all add: Warning_closed_def)
    from quoted_comma [OF e1, of t] q1 have q1': "quoted (v3 @ ?t) = (wtext, v4 @ ?t)" by simp
    show ?thesis
    proof (cases ok')
      case True
      with e2 have "quoted_ends v5" by simp
      from quoted_comma [OF this, of t] q2 have q2': "quoted (v5 @ ?t) = (dateStr, v6 @ ?t)"
        by simp
      from False True show ?thesis
        by (simp add: Warning_elem_def n c1 a q1 c2 q2 n' c1' a' q1' c2' q2')
    next
      case nok: False
      with False show ?thesis
        by (simp add: Warning_elem_def n c1 a q1 c2 n' c1' a' q1' c2')
    qed
  qed
qed

text \<open>
  The pair loop of \<open>Forwarded\<close> reads tokens, \<open>=\<close>, \<open>;\<close> and quoted strings, and a
  token has neither a comma nor a quote: the loop stays inside the element that the
  iterator sees.
\<close>

lemma skipElem_Cons:
  "c \<noteq> CHR '','' \<Longrightarrow> c \<noteq> DQUOTE \<Longrightarrow> skipElem (c # v) = skipElem v"
  by (simp add: skipElem.simps(2))

lemma skip_closed_Cons:
  "c \<noteq> CHR '','' \<Longrightarrow> c \<noteq> DQUOTE \<Longrightarrow> skip_closed (c # v) = skip_closed v"
  by (simp add: skip_closed.simps(2))

lemma isTokenChar_plain: "isTokenChar c \<Longrightarrow> c \<noteq> CHR '','' \<and> c \<noteq> DQUOTE"
  by (auto simp: isTokenChar_def isDelim_def)

lemma skipElem_consumeItem: "skipElem (snd (consumeItem w)) = skipElem w"
  by (induction w) (auto simp: consumeItem_def token_def skipElem_Cons dest: isTokenChar_plain)

lemma skip_closed_consumeItem: "skip_closed (snd (consumeItem w)) = skip_closed w"
  by (induction w) (auto simp: consumeItem_def token_def skip_closed_Cons dest: isTokenChar_plain)

lemma skipElem_tl:
  "peek v = Some c \<Longrightarrow> c \<noteq> CHR '','' \<Longrightarrow> c \<noteq> DQUOTE \<Longrightarrow> skipElem (tl v) = skipElem v"
  by (cases v) (simp_all add: peek_def skipElem_Cons)

lemma skip_closed_tl:
  "peek v = Some c \<Longrightarrow> c \<noteq> CHR '','' \<Longrightarrow> c \<noteq> DQUOTE \<Longrightarrow> skip_closed (tl v) = skip_closed v"
  by (cases v) (simp_all add: peek_def skip_closed_Cons)

lemma skipElem_consumeQuoted:
  "peek v = Some DQUOTE \<Longrightarrow> skipElem (fst (snd (consumeQuoted v flag))) = skipElem v"
  by (cases v) (simp_all add: peek_def consumeQuoted_def skipElem.simps(2) DQUOTE_def)

lemma skip_closed_consumeQuoted:
  "peek v = Some DQUOTE \<Longrightarrow> skip_closed v \<Longrightarrow>
   quoted_ends v \<and> snd (snd (consumeQuoted v flag)) \<and>
   skip_closed (fst (snd (consumeQuoted v flag)))"
  by (cases v)
     (simp_all add: peek_def consumeQuoted_def skip_closed.simps(2) quoted_ends_def DQUOTE_def)

lemma Forwarded_pairs_comma:
  "skip_closed w \<Longrightarrow>
   Forwarded_pairs e (w @ CHR '','' # t) =
     (fst (Forwarded_pairs e w), snd (Forwarded_pairs e w) @ CHR '','' # t)"
proof (induction e w rule: Forwarded_pairs.induct)
  case (1 elem v0)
  let ?t = "CHR '','' # t"
  obtain name0 v1 where n: "consumeItem v0 = (name0, v1)" by (cases "consumeItem v0")
  obtain val v3 ok where q: "consumeQuoted (tl v1) True = (val, v3, ok)"
    by (cases "consumeQuoted (tl v1) True")
  obtain val' v3' where i: "consumeItem (tl v1) = (val', v3')" by (cases "consumeItem (tl v1)")
  have n': "consumeItem (v0 @ ?t) = (name0, v1 @ ?t)" by (simp add: consumeItem_comma n)
  have i': "consumeItem (tl v1 @ ?t) = (val', v3' @ ?t)" by (simp add: consumeItem_comma i)
  from skip_closed_consumeItem [of v0] n "1.prems" have s1: "skip_closed v1" by simp
  have dq: "DQUOTE \<noteq> CHR '',''" by (simp add: DQUOTE_def)
  have pq: "peek (tl v1 @ ?t) = Some DQUOTE \<longleftrightarrow> peek (tl v1) = Some DQUOTE"
    using dq by (simp add: peek_comma)
  note unfold = Forwarded_pairs.simps [of elem v0]
  note unfold' = Forwarded_pairs.simps [of elem "v0 @ ?t"]
  show ?case
  proof (cases "ToLower name0 = []")
    case True
    show ?thesis
    proof (cases "peek v1 = Some CHR '';''")
      case semi: True
      then have semi': "peek (v1 @ ?t) = Some CHR '';''" by (simp add: peek_comma)
      from skip_closed_tl [OF semi] s1 have "skip_closed (tl v1)" by (simp add: DQUOTE_def)
      from "1.IH"(1) [OF n [symmetric] refl True semi this] True semi semi' n n'
      show ?thesis by (simp add: unfold unfold' tl_comma [OF semi])
    next
      case False
      then have "peek (v1 @ ?t) \<noteq> Some CHR '';''" by (simp add: peek_comma)
      with False True n n' show ?thesis by (simp add: unfold unfold')
    qed
  next
    case False
    show ?thesis
    proof (cases "peek v1 = Some CHR ''=''")
      case noeq: False
      then have "peek (v1 @ ?t) \<noteq> Some CHR ''=''" by (simp add: peek_comma)
      with noeq False n n' show ?thesis by (simp add: unfold unfold')
    next
      case eq: True
      then have eq': "peek (v1 @ ?t) = Some CHR ''=''" by (simp add: peek_comma)
      from skip_closed_tl [OF eq] s1 have s2: "skip_closed (tl v1)" by (simp add: DQUOTE_def)
      show ?thesis
      proof (cases "peek (tl v1) = Some DQUOTE")
        case isq: True
        from skip_closed_consumeQuoted [OF isq s2, of True] q
        have e: "quoted_ends (tl v1)" and ok: ok and s3: "skip_closed v3" by simp_all
        from consumeQuoted_comma [OF e, of t True] q ok
        have q': "consumeQuoted (tl v1 @ ?t) True = (val, v3 @ ?t, True)" by simp
        have "Forwarded_pairs (setParam elem (ToLower name0) val) (v3 @ ?t) =
              (fst (Forwarded_pairs (setParam elem (ToLower name0) val) v3),
               snd (Forwarded_pairs (setParam elem (ToLower name0) val) v3) @ ?t)"
          using eq ok s3
          by (intro "1.IH"(2) [OF n [symmetric] refl False _ refl isq q [symmetric] refl])
             simp_all
        with False eq eq' isq pq n n' q q' ok show ?thesis
          by (simp add: unfold unfold' tl_comma [OF eq])
      next
        case ndq: False
        from skip_closed_consumeItem [of "tl v1"] i s2 have s3: "skip_closed v3'" by simp
        have "Forwarded_pairs (setParam elem (ToLower name0) val') (v3' @ ?t) =
              (fst (Forwarded_pairs (setParam elem (ToLower name0) val') v3'),
               snd (Forwarded_pairs (setParam elem (ToLower name0) val') v3') @ ?t)"
          using eq s3
          by (intro "1.IH"(3) [OF n [symmetric] refl False _ refl ndq i [symmetric]]) simp_all
        with False eq eq' ndq pq n n' i i' show ?thesis
          by (simp add: unfold unfold' tl_comma [OF eq])
      qed
    qed
  qed
qed

lemma Forwarded_elem_comma:
  assumes "skip_closed w"
  shows "Forwarded_elem (w @ CHR '','' # t) =
    (fst (Forwarded_elem w), snd (Forwarded_elem w) @ CHR '','' # t)"
  using Forwarded_pairs_comma [OF assms, of ForwardedElem_zero t]
  by (cases "Forwarded_pairs ForwardedElem_zero w") (simp add: Forwarded_elem_def)

lemma Forwarded_pairs_skipElem: "skipElem (snd (Forwarded_pairs e w)) = skipElem w"
proof (induction e w rule: Forwarded_pairs.induct)
  case (1 elem v0)
  obtain name0 v1 where n: "consumeItem v0 = (name0, v1)" by (cases "consumeItem v0")
  obtain val v3 ok where q: "consumeQuoted (tl v1) True = (val, v3, ok)"
    by (cases "consumeQuoted (tl v1) True")
  obtain val' v3' where i: "consumeItem (tl v1) = (val', v3')" by (cases "consumeItem (tl v1)")
  from skipElem_consumeItem [of v0] n have s1: "skipElem v1 = skipElem v0" by simp
  note unfold = Forwarded_pairs.simps [of elem v0]
  show ?case
  proof (cases "ToLower name0 = []")
    case True
    show ?thesis
    proof (cases "peek v1 = Some CHR '';''")
      case semi: True
      from skipElem_tl [OF semi] s1 have "skipElem (tl v1) = skipElem v0"
        by (simp add: DQUOTE_def)
      with "1.IH"(1) [OF n [symmetric] refl True semi] True semi n
      show ?thesis by (simp add: unfold)
    next
      case False
      with True n s1 show ?thesis by (simp add: unfold)
    qed
  next
    case False
    show ?thesis
    proof (cases "peek v1 = Some CHR ''=''")
      case noeq: False
      with False n s1 show ?thesis by (simp add: unfold)
    next
      case eq: True
      from skipElem_tl [OF eq] s1 have s2: "skipElem (tl v1) = skipElem v0"
        by (simp add: DQUOTE_def)
      show ?thesis
      proof (cases "peek (tl v1) = Some DQUOTE")
        case isq: True
        from skipElem_consumeQuoted [OF isq, of True] q s2
        have s3: "skipElem v3 = skipElem v0" by simp
        show ?thesis
        proof (cases ok)
          case True
          have "skipElem (snd (Forwarded_pairs (setParam elem (ToLower name0) val) v3)) =
                skipElem v3"
            using eq True
            by (intro "1.IH"(2) [OF n [symmetric] refl False _ refl isq q [symmetric] refl])
               simp_all
          with s3 False eq isq n q True show ?thesis by (simp add: unfold)
        next
          case nok: False
          with False eq isq n q s3 show ?thesis by (simp add: unfold)
        qed
      next
        case ndq: False
        from skipElem_consumeItem [of "tl v1"] i s2 have s3: "skipElem v3' = skipElem v0"
          by simp
        have "skipElem (snd (Forwarded_pairs (setParam elem (ToLower name0) val') v3')) =
              skipElem v3'"
          using eq
          by (intro "1.IH"(3) [OF n [symmetric] refl False _ refl ndq i [symmetric]]) simp_all
        with s3 False eq ndq n i show ?thesis by (simp add: unfold)
      qed
    qed
  qed
qed

section \<open>Recovery of the elements after a malformed one\<close>

lemma lines_of_single [simp]: "lines_of [name \<mapsto> ls] name = ls"
  by (simp add: lines_of_def)

text \<open>
  Claim C1. The documentation of \<open>Forwarded\<close> guarantees that valid elements at the end
  of the header are parsed even when malformed elements precede them. This fails for a
  malformed element that leaves a quoted value open: \<open>consumeQuoted\<close> reads the string
  to the end of the line, the comma and the trailing element included, and the pair
  loop breaks on \<open>!ok\<close>. In the header
  \<open>for="x,for=1.2.3.4\<close> the trailing element \<open>for=1.2.3.4\<close> is valid and gives, on
  its own, an element with that \<open>For\<close>; after the malformed element it is lost, and the
  result is one element with nothing in it.
\<close>

theorem Forwarded_trailing_element_lost:
  "map For (elems_of (Forwarded
       [''Forwarded'' \<mapsto> [''for='' @ DQUOTE # ''x,for=1.2.3.4'']])) = [[]] \<and>
   map For (elems_of (Forwarded [''Forwarded'' \<mapsto> [''for=1.2.3.4'']])) = [''1.2.3.4'']"
  by code_simp

section \<open>Physical lines of one logical list\<close>

text \<open>\<open>strings.Join(lines, ", ")\<close> of the Go library.\<close>

fun join_lines :: "string list \<Rightarrow> string" where
  "join_lines [] = []"
| "join_lines [l] = l"
| "join_lines (l # l' # ls) = l @ '', '' @ join_lines (l' # ls)"

lemma join_lines_Cons:
  "join_lines (x # xs) = x @ (if xs = [] then [] else '', '' @ join_lines xs)"
  by (cases xs) simp_all

lemma join_lines_last: "join_lines (ls @ [p, t]) = join_lines (ls @ [p @ '', '' @ t])"
  by (induction ls) (simp_all add: join_lines_Cons)

lemma skipSeps_space: "skipSeps (CHR '' '' # l) = skipSeps l"
  by (simp add: skipSeps_def isSep_def isWS_def)

lemma run_join:
  assumes loc: "\<And>w t. bclosed w \<Longrightarrow>
      body (w @ CHR '','' # t) = (fst (body w), snd (body w) @ CHR '','' # t)"
  shows "list_all (line_closed body bclosed) (butlast ls) \<Longrightarrow> run body [] ls xs \<Longrightarrow>
    run body [] [join_lines ls] xs"
proof (induction "length ls" arbitrary: ls rule: less_induct)
  case less
  show ?case
  proof (cases ls rule: rev_cases)
    case Nil
    have "toNextElem [] [join_lines []] = toNextElem [] []"
      by (simp add: toNextElem_start skipSeps_def)
    with Nil less.prems(2) show ?thesis by (auto intro: run_cong)
  next
    case (snoc ls' t)
    show ?thesis
    proof (cases ls' rule: rev_cases)
      case Nil
      with snoc less.prems(2) show ?thesis by simp
    next
      case ls': (snoc ls'' p)
      from snoc ls' have ls: "ls = ls'' @ [p, t]" by simp
      from less.prems(1) ls have cl: "list_all (line_closed body bclosed) ls''"
        and cp: "line_closed body bclosed p"
        by (simp_all add: butlast_append)
      from run_split_lines [OF less.prems(2) ls] obtain xs1 xs2 where
        x: "xs = xs1 @ xs2" "run body [] ls'' xs1" "run body [] [p, t] xs2" by blast
      from run_join_lines [of bclosed body, OF loc skipSeps_space cp x(3)]
      have "run body [] [p @ '', '' @ t] xs2" by simp
      from run_append_lines [OF x(2) this] x(1)
      have r: "run body [] (ls'' @ [p @ '', '' @ t]) xs" by simp
      have "run body [] [join_lines (ls'' @ [p @ '', '' @ t])] xs"
        using ls cl r by (intro less.hyps) simp_all
      with ls show ?thesis by (simp only: join_lines_last)
    qed
  qed
qed

lemma Allow_join:
  assumes "ls \<noteq> []" and "list_all (line_closed Allow_elem (\<lambda>w. True)) (butlast ls)"
  shows "Allow_loop None [] [join_lines ls] = Allow_loop None [] ls"
proof -
  obtain xs where 1: "run Allow_elem [] ls xs" "Allow_loop None [] ls = foldl append_slice None xs"
    using Allow_loop_items by blast
  have "run Allow_elem [] [join_lines ls] xs"
    by (rule run_join [of "\<lambda>w. True" Allow_elem, OF Allow_elem_comma assms(2) 1(1)])
  from Allow_loop_run [OF this, of None] 1(2) show ?thesis by simp
qed

lemma Via_join:
  assumes "list_all (line_closed Via_elem Via_closed) (butlast ls)"
  shows "Via_loop None [] [join_lines ls] = Via_loop None [] ls"
proof -
  obtain xs where 1: "run Via_elem [] ls xs" "Via_loop None [] ls = foldl append_slice None xs"
    using Via_loop_items by blast
  have "run Via_elem [] [join_lines ls] xs"
    by (rule run_join [of Via_closed Via_elem, OF Via_elem_comma assms 1(1)])
  from Via_loop_run [OF this, of None] 1(2) show ?thesis by simp
qed

lemma Warning_join:
  assumes "list_all (line_closed (Warning_elem pt) Warning_closed) (butlast ls)"
  shows "Warning_loop pt None [] [join_lines ls] = Warning_loop pt None [] ls"
proof -
  obtain xs where 1: "run (Warning_elem pt) [] ls xs"
    "Warning_loop pt None [] ls = foldl append_slice None xs"
    using Warning_loop_items by blast
  have "run (Warning_elem pt) [] [join_lines ls] xs"
    by (rule run_join [of Warning_closed "Warning_elem pt", OF Warning_elem_comma assms 1(1)])
  from Warning_loop_run [OF this, of None] 1(2) show ?thesis by simp
qed

lemma Forwarded_join:
  assumes "list_all (line_closed Forwarded_elem skip_closed) (butlast ls)"
  shows "Forwarded_loop None [] [join_lines ls] = Forwarded_loop None [] ls"
proof -
  obtain xs where 1: "run Forwarded_elem [] ls xs"
    "Forwarded_loop None [] ls = foldl append_slice None xs"
    using Forwarded_loop_items by blast
  have "run Forwarded_elem [] [join_lines ls] xs"
    by (rule run_join [of skip_closed Forwarded_elem, OF Forwarded_elem_comma assms 1(1)])
  from Forwarded_loop_run [OF this, of None] 1(2) show ?thesis by simp
qed

text \<open>
  Claim C4, as amended. Joining the lines of a header with \<open>", "\<close> into one line does
  not change what is parsed, provided that no line but the last ends inside a comment or
  a quoted string that is left open, as the parser in question and the iterator read the
  line (\<open>line_closed\<close>): for \<open>Via\<close> the comment of an element, for \<open>Warning\<close> the
  text and the date of an element, for \<open>Forwarded\<close> a quoted value, and for all of
  them, \<open>Allow\<close> included, a quoted string in what the iterator passes over after the
  body has stopped. The last line may end in any way. For \<open>Allow\<close> there must be at
  least one line, since a header with no line at all gives nil and an empty line gives
  the empty list.
\<close>

theorem joined_lines_parse_alike:
  "(ls \<noteq> [] \<and> list_all (line_closed Allow_elem (\<lambda>w. True)) (butlast ls) \<longrightarrow>
      Allow [''Allow'' \<mapsto> [join_lines ls]] = Allow [''Allow'' \<mapsto> ls]) \<and>
   (list_all (line_closed Via_elem Via_closed) (butlast ls) \<longrightarrow>
      Via [''Via'' \<mapsto> [join_lines ls]] = Via [''Via'' \<mapsto> ls]) \<and>
   (list_all (line_closed (Warning_elem pt) Warning_closed) (butlast ls) \<longrightarrow>
      Warning pt [''Warning'' \<mapsto> [join_lines ls]] = Warning pt [''Warning'' \<mapsto> ls]) \<and>
   (list_all (line_closed Forwarded_elem skip_closed) (butlast ls) \<longrightarrow>
      Forwarded [''Forwarded'' \<mapsto> [join_lines ls]] = Forwarded [''Forwarded'' \<mapsto> ls])"
  by (simp add: Allow_def Via_def Warning_def Forwarded_def Allow_join Via_join Warning_join
        Forwarded_join)

text \<open>
  The theorem at headers of two lines: a list of methods; the two lines of \<open>ExampleVia\<close>,
  the first with a comment; two warnings, the first with a comma in its quoted text and
  with a date; two \<open>Forwarded\<close> elements, the first with a quoted value.
\<close>

theorem joined_lines_parse_alike_witness:
  "([''GET, HEAD'', ''OPTIONS''] \<noteq> [] \<and>
    list_all (line_closed Allow_elem (\<lambda>w. True)) (butlast [''GET, HEAD'', ''OPTIONS''])) \<and>
   Allow [''Allow'' \<mapsto> [join_lines [''GET, HEAD'', ''OPTIONS'']]] =
     Allow [''Allow'' \<mapsto> [''GET, HEAD'', ''OPTIONS'']] \<and>
   Allow [''Allow'' \<mapsto> [''GET, HEAD'', ''OPTIONS'']] = Some [''GET'', ''HEAD'', ''OPTIONS''] \<and>
   list_all (line_closed Via_elem Via_closed)
     (butlast [''1.1 foo.example.com:8080 (corporate)'', ''2 bar.example.net'']) \<and>
   Via [''Via'' \<mapsto> [join_lines [''1.1 foo.example.com:8080 (corporate)'', ''2 bar.example.net'']]] =
     Via [''Via'' \<mapsto> [''1.1 foo.example.com:8080 (corporate)'', ''2 bar.example.net'']] \<and>
   Via [''Via'' \<mapsto> [''1.1 foo.example.com:8080 (corporate)'', ''2 bar.example.net'']] =
     Some [\<lparr>ReceivedProto = ''HTTP/1.1'', ReceivedBy = ''foo.example.com:8080'',
             Comment = ''corporate''\<rparr>,
           \<lparr>ReceivedProto = ''HTTP/2'', ReceivedBy = ''bar.example.net'', Comment = []\<rparr>] \<and>
   list_all
     (line_closed
        (Warning_elem (\<lambda>s. if s = ''Wed, 21 Oct 2015 07:28:00 GMT'' then Some (1445412480 :: int) else None))
        Warning_closed)
     (butlast [''299 gw1 '' @ DQUOTE # ''a, b'' @ DQUOTE # '' '' @ DQUOTE #
                 ''Wed, 21 Oct 2015 07:28:00 GMT'' @ [DQUOTE],
               ''199 gw2 '' @ DQUOTE # ''second'' @ [DQUOTE]]) \<and>
   Warning (\<lambda>s. if s = ''Wed, 21 Oct 2015 07:28:00 GMT'' then Some (1445412480 :: int) else None)
       [''Warning'' \<mapsto>
          [join_lines [''299 gw1 '' @ DQUOTE # ''a, b'' @ DQUOTE # '' '' @ DQUOTE #
                         ''Wed, 21 Oct 2015 07:28:00 GMT'' @ [DQUOTE],
                       ''199 gw2 '' @ DQUOTE # ''second'' @ [DQUOTE]]]] =
     Warning (\<lambda>s. if s = ''Wed, 21 Oct 2015 07:28:00 GMT'' then Some (1445412480 :: int) else None)
       [''Warning'' \<mapsto>
          [''299 gw1 '' @ DQUOTE # ''a, b'' @ DQUOTE # '' '' @ DQUOTE #
             ''Wed, 21 Oct 2015 07:28:00 GMT'' @ [DQUOTE],
           ''199 gw2 '' @ DQUOTE # ''second'' @ [DQUOTE]]] \<and>
   Warning (\<lambda>s. if s = ''Wed, 21 Oct 2015 07:28:00 GMT'' then Some (1445412480 :: int) else None)
       [''Warning'' \<mapsto>
          [''299 gw1 '' @ DQUOTE # ''a, b'' @ DQUOTE # '' '' @ DQUOTE #
             ''Wed, 21 Oct 2015 07:28:00 GMT'' @ [DQUOTE],
           ''199 gw2 '' @ DQUOTE # ''second'' @ [DQUOTE]]] =
     Some [\<lparr>Code = 299, Agent = ''gw1'', Text = ''a, b'', Date = (1445412480 :: int)\<rparr>,
           \<lparr>Code = 199, Agent = ''gw2'', Text = ''second'', Date = 0\<rparr>] \<and>
   list_all (line_closed Forwarded_elem skip_closed)
     (butlast [''for='' @ DQUOTE # ''a,b'' @ DQUOTE # '';by=c'', ''for=d'']) \<and>
   Forwarded
       [''Forwarded'' \<mapsto> [join_lines [''for='' @ DQUOTE # ''a,b'' @ DQUOTE # '';by=c'', ''for=d'']]] =
     Forwarded [''Forwarded'' \<mapsto> [''for='' @ DQUOTE # ''a,b'' @ DQUOTE # '';by=c'', ''for=d'']] \<and>
   map (\<lambda>e. (For e, By e))
     (elems_of (Forwarded
        [''Forwarded'' \<mapsto> [''for='' @ DQUOTE # ''a,b'' @ DQUOTE # '';by=c'', ''for=d'']])) =
     [(''a,b'', ''c''), (''d'', [])]"
proof -
  let ?pt = "\<lambda>s. if s = ''Wed, 21 Oct 2015 07:28:00 GMT'' then Some (1445412480 :: int) else None"
  let ?ws = "[''299 gw1 '' @ DQUOTE # ''a, b'' @ DQUOTE # '' '' @ DQUOTE #
                ''Wed, 21 Oct 2015 07:28:00 GMT'' @ [DQUOTE],
              ''199 gw2 '' @ DQUOTE # ''second'' @ [DQUOTE]]"
  let ?fs = "[''for='' @ DQUOTE # ''a,b'' @ DQUOTE # '';by=c'', ''for=d'']"
  have h1: "[''GET, HEAD'', ''OPTIONS''] \<noteq> [] \<and>
    list_all (line_closed Allow_elem (\<lambda>w. True)) (butlast [''GET, HEAD'', ''OPTIONS''])"
    by code_simp
  have h2: "list_all (line_closed Via_elem Via_closed)
     (butlast [''1.1 foo.example.com:8080 (corporate)'', ''2 bar.example.net''])"
    by code_simp
  have h3: "list_all (line_closed (Warning_elem ?pt) Warning_closed) (butlast ?ws)"
    by code_simp
  have h4: "list_all (line_closed Forwarded_elem skip_closed) (butlast ?fs)"
    by code_simp
  note a = joined_lines_parse_alike [THEN conjunct1, THEN mp, OF h1]
  note v = joined_lines_parse_alike [THEN conjunct2, THEN conjunct1, THEN mp, OF h2]
  note w = joined_lines_parse_alike
    [where pt = ?pt, THEN conjunct2, THEN conjunct2, THEN conjunct1, THEN mp, OF h3]
  note f = joined_lines_parse_alike [THEN conjunct2, THEN conjunct2, THEN conjunct2, THEN mp, OF h4]
  have e1: "Allow [''Allow'' \<mapsto> [''GET, HEAD'', ''OPTIONS'']] = Some [''GET'', ''HEAD'', ''OPTIONS'']"
    by code_simp
  have e2: "Via [''Via'' \<mapsto> [''1.1 foo.example.com:8080 (corporate)'', ''2 bar.example.net'']] =
     Some [\<lparr>ReceivedProto = ''HTTP/1.1'', ReceivedBy = ''foo.example.com:8080'',
             Comment = ''corporate''\<rparr>,
           \<lparr>ReceivedProto = ''HTTP/2'', ReceivedBy = ''bar.example.net'', Comment = []\<rparr>]"
    by code_simp
  have e3: "Warning ?pt [''Warning'' \<mapsto> ?ws] =
     Some [\<lparr>Code = 299, Agent = ''gw1'', Text = ''a, b'', Date = (1445412480 :: int)\<rparr>,
           \<lparr>Code = 199, Agent = ''gw2'', Text = ''second'', Date = 0\<rparr>]"
    by code_simp
  have e4: "map (\<lambda>e. (For e, By e)) (elems_of (Forwarded [''Forwarded'' \<mapsto> ?fs])) =
     [(''a,b'', ''c''), (''d'', [])]"
    by code_simp
  show ?thesis
    by (intro conjI h1 [THEN conjunct1] h1 [THEN conjunct2] h2 h3 h4 e1 e2 e3 e4 a v w f)
qed

text \<open>
  Claim C4 as stated fails: of two lines, the first ends inside a comment. Parsed as they
  are, the comment ends with its line and the second line gives an entry; joined, the
  comment takes the rest. It also fails for \<open>Allow\<close> and a header with no line at
  all, which gives nil, while the joined line, the empty one, gives the empty list.
\<close>

theorem joined_lines_counterexample:
  "join_lines [''1.1 foo (unterminated'', ''1.1 bar''] = ''1.1 foo (unterminated, 1.1 bar'' \<and>
   Via [''Via'' \<mapsto> [''1.1 foo (unterminated'', ''1.1 bar'']] =
     Some [\<lparr>ReceivedProto = ''HTTP/1.1'', ReceivedBy = ''foo'', Comment = ''unterminated''\<rparr>,
           \<lparr>ReceivedProto = ''HTTP/1.1'', ReceivedBy = ''bar'', Comment = []\<rparr>] \<and>
   Via [''Via'' \<mapsto> [''1.1 foo (unterminated, 1.1 bar'']] =
     Some [\<lparr>ReceivedProto = ''HTTP/1.1'', ReceivedBy = ''foo'',
             Comment = ''unterminated, 1.1 bar''\<rparr>] \<and>
   Allow [''Allow'' \<mapsto> []] = None \<and>
   Allow [''Allow'' \<mapsto> [join_lines []]] = Some []"
  by code_simp

section \<open>Forwarded: one element of the result per element of the header\<close>

text \<open>
  The number of non-empty elements of a line, as the claim counts them. The elements
  of a line are separated by its top-level commas: a comma inside a quoted string
  belongs to the element, and a quoted string that is never closed runs to the end of
  the line. An element is empty when it has nothing but whitespace.
  \<open>count_from seen s\<close> counts the elements of \<open>s\<close>, where \<open>seen\<close> tells whether the
  element that \<open>s\<close> continues has already shown a character other than whitespace.
\<close>

function count_from :: "bool \<Rightarrow> string \<Rightarrow> nat" where
  "count_from seen [] = (if seen then 1 else 0)"
| "count_from seen (c # rest) =
     (if c = CHR '','' then (if seen then 1 else 0) + count_from False rest
      else if c = DQUOTE then count_from True (fst (snd (quoted_body rest)))
      else count_from (seen \<or> \<not> isWS c) rest)"
  by pat_completeness auto
termination
proof (relation "measure (\<lambda>(seen, s). length s)")
  fix c :: char and rest :: string
  obtain t v ok where q: "quoted_body rest = (t, v, ok)" by (cases "quoted_body rest") auto
  from quoted_body_length [OF q] q
  show "((True, fst (snd (quoted_body rest))), (seen, c # rest)) \<in> measure (\<lambda>(seen, s). length s)"
    for seen by simp
qed simp_all

declare count_from.simps(2) [simp del]

definition count_elems :: "string \<Rightarrow> nat" where
  "count_elems l = count_from False l"

lemma count_from_seen: "count_from True w = Suc (count_from False (skipElem w))"
proof (induction w rule: skipElem.induct)
  case 1
  show ?case by simp
next
  case (2 c rest)
  show ?case
  proof (cases "c = CHR '',''")
    case True
    then show ?thesis by (simp add: count_from.simps(2) skipElem.simps(2))
  next
    case nc: False
    show ?thesis
    proof (cases "c = DQUOTE")
      case True
      with nc "2.IH"(1) show ?thesis by (simp add: count_from.simps(2) skipElem.simps(2))
    next
      case False
      with nc "2.IH"(2) show ?thesis by (simp add: count_from.simps(2) skipElem.simps(2))
    qed
  qed
qed

lemma count_from_start:
  assumes "v \<noteq> []" and "\<not> isSep (hd v)"
  shows "count_from False v = Suc (count_from False (skipElem v))"
proof -
  from assms obtain c rest where v: "v = c # rest" and c: "c \<noteq> CHR '',''" "\<not> isWS c"
    by (cases v) (auto simp: isSep_def)
  show ?thesis
  proof (cases "c = DQUOTE")
    case True
    with v c show ?thesis
      by (simp add: count_from.simps(2) skipElem.simps(2) count_from_seen)
  next
    case False
    with v c show ?thesis
      by (simp add: count_from.simps(2) skipElem.simps(2) count_from_seen)
  qed
qed

lemma count_from_skipSeps: "count_from False (skipSeps w) = count_from False w"
proof (induction w)
  case Nil
  show ?case by (simp add: skipSeps_def)
next
  case (Cons c rest)
  show ?case
  proof (cases "isSep c")
    case True
    then have "c = CHR '','' \<or> (c \<noteq> CHR '','' \<and> c \<noteq> DQUOTE \<and> isWS c)"
      by (auto simp: isSep_def isWS_def DQUOTE_def HTAB_def)
    with True Cons show ?thesis by (auto simp: skipSeps_def count_from.simps(2))
  next
    case False
    then show ?thesis by (simp add: skipSeps_def)
  qed
qed

lemma skipSeps_hd: "skipSeps x \<noteq> [] \<Longrightarrow> \<not> isSep (hd (skipSeps x))"
  unfolding skipSeps_def by (rule hd_dropWhile)

lemma count_nextLine:
  "nextLine vs = (v, r) \<Longrightarrow>
   sum_list (map count_elems vs) =
     count_from False v + (case r of None \<Rightarrow> 0 | Some vs' \<Rightarrow> sum_list (map count_elems vs')) \<and>
   (case r of None \<Rightarrow> v = [] | Some vs' \<Rightarrow> v \<noteq> [] \<and> \<not> isSep (hd v))"
proof (induction vs)
  case Nil
  then show ?case by auto
next
  case (Cons l ls)
  show ?case
  proof (cases "skipSeps l = []")
    case True
    with count_from_skipSeps [of l] have "count_elems l = 0" by (simp add: count_elems_def)
    with True Cons show ?thesis by simp
  next
    case False
    with Cons.prems have "v = skipSeps l" "r = Some ls" by (simp_all add: Let_def)
    moreover from count_from_skipSeps [of l] have "count_elems l = count_from False (skipSeps l)"
      by (simp add: count_elems_def)
    ultimately show ?thesis using False skipSeps_hd [OF False] by simp
  qed
qed

lemma count_toNextElem:
  assumes "toNextElem v0 vs0 = (v, r)"
  shows "count_from False (skipElem v0) + sum_list (map count_elems vs0) =
     count_from False v + (case r of None \<Rightarrow> 0 | Some vs \<Rightarrow> sum_list (map count_elems vs)) \<and>
   (case r of None \<Rightarrow> v = [] | Some vs \<Rightarrow> v \<noteq> [] \<and> \<not> isSep (hd v))"
proof (cases "skipSeps (skipElem v0) = []")
  case True
  with assms have "nextLine vs0 = (v, r)" by (simp add: toNextElem_def)
  from count_nextLine [OF this] count_from_skipSeps [of "skipElem v0"] True show ?thesis
    by simp
next
  case False
  with assms have "v = skipSeps (skipElem v0)" "r = Some vs0" by (simp_all add: toNextElem_def)
  with False count_from_skipSeps [of "skipElem v0"] skipSeps_hd [OF False] show ?thesis
    by simp
qed

lemma run_count:
  assumes emits: "\<And>v. fst (body v) \<noteq> None"
    and inv: "\<And>v. skipElem (snd (body v)) = skipElem v"
  shows "run body v0 vs0 xs \<Longrightarrow>
    length xs = count_from False (skipElem v0) + sum_list (map count_elems vs0)"
proof (induction rule: run.induct)
  case (run_stop v0 vs0 v)
  from count_toNextElem [OF this] show ?case by simp
next
  case (run_skip v0 vs0 v vs v' xs)
  with emits [of v] show ?case by simp
next
  case (run_emit v0 vs0 v vs x v' xs)
  from count_toNextElem [OF run_emit(1)]
  have c: "count_from False (skipElem v0) + sum_list (map count_elems vs0) =
      count_from False v + sum_list (map count_elems vs)"
    and s: "v \<noteq> []" "\<not> isSep (hd v)" by simp_all
  from inv [of v] run_emit(2) have "skipElem v' = skipElem v" by simp
  with run_emit.IH count_from_start [OF s] c show ?case by simp
qed

lemma Forwarded_elem_emits: "fst (Forwarded_elem v) \<noteq> None"
  by (cases "Forwarded_pairs ForwardedElem_zero v") (simp add: Forwarded_elem_def)

lemma Forwarded_elem_skipElem: "skipElem (snd (Forwarded_elem v)) = skipElem v"
  using Forwarded_pairs_skipElem [of ForwardedElem_zero v]
  by (cases "Forwarded_pairs ForwardedElem_zero v") (simp add: Forwarded_elem_def)

lemma Forwarded_loop_count:
  "length (elems_of (Forwarded_loop None [] ls)) = sum_list (map count_elems ls)"
proof -
  obtain xs where 1: "run Forwarded_elem [] ls xs"
    "Forwarded_loop None [] ls = foldl append_slice None xs"
    using Forwarded_loop_items by blast
  from run_count [of Forwarded_elem, OF Forwarded_elem_emits Forwarded_elem_skipElem 1(1)]
  have "length xs = sum_list (map count_elems ls)" by simp
  with 1(2) show ?thesis by (simp add: elems_of_foldl)
qed



section \<open>Round trip: parsing what the builders write\<close>

subsection \<open>The scanner on built text\<close>

lemma isDigit_char_of: "(k::nat) < 10 \<Longrightarrow> isDigit (char_of (48 + k))"
  by (simp add: isDigit_def)

lemma digit_val_char_of: "(k::nat) < 10 \<Longrightarrow> digit_val (char_of (48 + k)) = int k"
  by (simp add: digit_val_def)

lemma digits_of_digits: "list_all isDigit (digits_of n)"
proof (induction n rule: digits_of.induct)
  case (1 n)
  show ?case
  proof (cases "n < 10")
    case True
    then show ?thesis by (subst digits_of.simps) (simp add: isDigit_char_of)
  next
    case False
    have "n mod 10 < 10" by simp
    with False 1 show ?thesis
      by (subst digits_of.simps) (simp add: isDigit_char_of)
  qed
qed

lemma digits_of_nonempty: "digits_of n \<noteq> []"
  by (subst digits_of.simps) simp

lemma decimal_snoc: "decimal (ds @ [d]) = 10 * decimal ds + digit_val d"
  by (simp add: decimal_def)

lemma decimal_digits_of: "decimal (digits_of n) = int n"
proof (induction n rule: digits_of.induct)
  case (1 n)
  show ?case
  proof (cases "n < 10")
    case True
    then show ?thesis
      by (subst digits_of.simps) (simp add: decimal_def digit_val_char_of)
  next
    case False
    have m: "n mod 10 < 10" by simp
    from False 1 have "decimal (digits_of (n div 10)) = int (n div 10)" by simp
    with False m show ?thesis
      by (subst digits_of.simps) (simp add: decimal_snoc digit_val_char_of zdiv_int zmod_int)
  qed
qed

definition stops_number :: "string \<Rightarrow> bool" where
  "stops_number r = (case r of [] \<Rightarrow> True | c # _ \<Rightarrow> \<not> isDigit c)"

lemma takeWhile_run:
  "list_all P t \<Longrightarrow> (case r of [] \<Rightarrow> True | c # _ \<Rightarrow> \<not> P c) \<Longrightarrow> takeWhile P (t @ r) = t"
  by (induction t) (auto split: list.splits)

lemma dropWhile_run:
  "list_all P t \<Longrightarrow> (case r of [] \<Rightarrow> True | c # _ \<Rightarrow> \<not> P c) \<Longrightarrow> dropWhile P (t @ r) = r"
  by (induction t) (auto split: list.splits)

lemma number_Itoa:
  assumes "0 \<le> n" "stops_number r"
  shows "number (Itoa n @ r) = (n, r)"
proof -
  from assms(1) have i: "Itoa n = digits_of (nat n)" by (simp add: Itoa_def)
  from assms(2) have s: "case r of [] \<Rightarrow> True | c # _ \<Rightarrow> \<not> isDigit c" by (simp add: stops_number_def)
  have t: "takeWhile isDigit (digits_of (nat n) @ r) = digits_of (nat n)"
    by (rule takeWhile_run [OF digits_of_digits s])
  have d: "dropWhile isDigit (digits_of (nat n) @ r) = r"
    by (rule dropWhile_run [OF digits_of_digits s])
  from assms(1) show ?thesis
    by (simp add: number_def i t d digits_of_nonempty decimal_digits_of)
qed

lemma consume_space: "consume (CHR '' '' # r) CHR '' '' = (r, True)"
  by (simp add: consume_def)

lemma consume_no_space: "peek r \<noteq> Some CHR '' '' \<Longrightarrow> consume r CHR '' '' = (r, False)"
  by (cases r) (simp_all add: consume_def peek_def)

text \<open>A text \<open>chomp\<close> reads whole: not empty, without whitespace and commas.\<close>

definition chompable :: "string \<Rightarrow> bool" where
  "chompable s = (s \<noteq> [] \<and> list_all isChompChar s)"

definition stops_chomp :: "string \<Rightarrow> bool" where
  "stops_chomp r = (case r of [] \<Rightarrow> True | c # _ \<Rightarrow> \<not> isChompChar c)"

lemma skipWS_start: "peek r \<noteq> Some CHR '' '' \<Longrightarrow> peek r \<noteq> Some HTAB \<Longrightarrow> skipWS r = r"
  by (cases r) (simp_all add: skipWS_def isWS_def peek_def)

lemma chomp_read:
  assumes "chompable s" "stops_chomp r"
  shows "chomp (s @ r) = (s, skipWS r)"
proof -
  from assms(1) obtain c s' where s: "s = c # s'" and c: "isChompChar c"
    by (cases s) (auto simp: chompable_def)
  from c have "\<not> isWS c" by (simp add: isChompChar_def)
  with s have w: "skipWS (s @ r) = s @ r" by (simp add: skipWS_def)
  from assms have a: "list_all isChompChar s"
    and b: "case r of [] \<Rightarrow> True | c # _ \<Rightarrow> \<not> isChompChar c"
    by (simp_all add: chompable_def stops_chomp_def)
  show ?thesis
    by (simp add: chomp_def w takeWhile_run [OF a b] dropWhile_run [OF a b])
qed

lemma quoted_body_escape:
  "quoted_body (escape DQUOTE DQUOTE s @ DQUOTE # r) = (s, r, True)"
  by (induction s) (simp_all add: DQUOTE_def BSLASH_def)

lemma quoted_escape:
  "quoted (DQUOTE # escape DQUOTE DQUOTE s @ DQUOTE # r) = (s, r)"
  by (simp add: quoted_def consumeQuoted_def quoted_body_escape)

lemma consumeQuoted_escape:
  "consumeQuoted (DQUOTE # escape DQUOTE DQUOTE s @ DQUOTE # r) flag = (s, r, True)"
  by (simp add: consumeQuoted_def quoted_body_escape)

lemma escape_plain:
  "opener \<notin> set s \<Longrightarrow> closer \<notin> set s \<Longrightarrow> BSLASH \<notin> set s \<Longrightarrow> escape opener closer s = s"
  by (induction s) auto

lemma comment_body_escape:
  "comment_body 0 (escape CHR ''('' CHR '')'' s @ CHR '')'' # r) = (s, r)"
  by (induction s) (simp_all add: BSLASH_def)

lemma comment_escape:
  "comment (CHR ''('' # escape CHR ''('' CHR '')'' s @ CHR '')'' # r) = (s, r)"
  by (simp add: comment_def comment_body_escape)


text \<open>Where an element of a built header ends: at the end of the line or at a comma.\<close>

definition at_end :: "string \<Rightarrow> bool" where
  "at_end r = (case r of [] \<Rightarrow> True | c # _ \<Rightarrow> c = CHR '','')"

lemma at_end_peek: "at_end r \<Longrightarrow> c \<noteq> CHR '','' \<Longrightarrow> peek r \<noteq> Some c"
  by (cases r) (auto simp: at_end_def peek_def)

lemma at_end_skipWS: "at_end r \<Longrightarrow> skipWS r = r"
  by (cases r) (auto simp: at_end_def skipWS_def)

lemma at_end_stops: "at_end r \<Longrightarrow> stops_chomp r"
  by (cases r) (auto simp: at_end_def stops_chomp_def)

lemma run_built:
  assumes read: "\<And>e r. e \<in> set es \<Longrightarrow> at_end r \<Longrightarrow> body (str e @ r) = (Some e, r)"
    and start: "\<And>e. e \<in> set es \<Longrightarrow> str e \<noteq> [] \<and> \<not> isSep (hd (str e))"
  shows "es \<noteq> [] \<Longrightarrow> toNextElem v vs = (join_lines (map str es), Some []) \<Longrightarrow> run body v vs es"
  using assms
proof (induction es arbitrary: v vs)
  case Nil
  then show ?case by simp
next
  case (Cons e es)
  show ?case
  proof (cases "es = []")
    case True
    from Cons.prems(3) [of e "[]"] have "body (str e) = (Some e, [])" by (simp add: at_end_def)
    moreover have "run body [] [] []" by (rule run_stop [OF toNextElem_end])
    ultimately show ?thesis using Cons.prems(2) True by (auto intro: run_emit)
  next
    case False
    let ?rest = "join_lines (map str es)"
    let ?r = "'', '' @ ?rest"
    from False obtain e' es' where es: "es = e' # es'" by (cases es) auto
    from Cons.prems(4) [of e'] es have s: "str e' \<noteq> [] \<and> \<not> isSep (hd (str e'))" by simp
    then have st: "?rest \<noteq> [] \<and> \<not> isSep (hd ?rest)" using es by (simp add: join_lines_Cons)
    have b: "body (str e @ ?r) = (Some e, ?r)"
      by (rule Cons.prems(3)) (simp_all add: at_end_def)
    have "skipSeps ?r = ?rest"
      using st by (cases ?rest) (simp_all add: skipSeps_def isSep_def isWS_def)
    then have tn: "toNextElem ?r [] = (?rest, Some [])"
      using st by (simp add: toNextElem_def skipElem.simps(2))
    have "run body ?r [] es"
      using False tn Cons.prems(3,4) by (intro Cons.IH) simp_all
    with b Cons.prems(2) False show ?thesis
      by (intro run_emit [where v = "join_lines (map str (e # es))" and v' = ?r])
         (simp_all add: join_lines_Cons)
  qed
qed

lemma run_built_line:
  assumes "\<And>e r. e \<in> set es \<Longrightarrow> at_end r \<Longrightarrow> body (str e @ r) = (Some e, r)"
    and "\<And>e. e \<in> set es \<Longrightarrow> str e \<noteq> [] \<and> \<not> isSep (hd (str e))"
    and "es \<noteq> []"
  shows "run body [] [join_lines (map str es)] es"
proof -
  from assms(3) obtain e es' where es: "es = e # es'" by (cases es) auto
  from assms(2) [of e] es have "join_lines (map str es) \<noteq> [] \<and> \<not> isSep (hd (join_lines (map str es)))"
    by (simp add: join_lines_Cons)
  then have "toNextElem [] [join_lines (map str es)] = (join_lines (map str es), Some [])"
    by (intro toNextElem_line) simp_all
  from run_built [of es body str, OF assms(1,2) assms(3) this] show ?thesis by simp
qed

lemma foldl_append_slice_Some: "es \<noteq> [] \<Longrightarrow> foldl append_slice None es = Some es"
proof -
  have g: "\<And>xs. foldl append_slice (Some xs) es = Some (xs @ es)" for es :: "'a list"
    by (induction es) (simp_all add: append_slice_def)
  assume "es \<noteq> []"
  then obtain a es' where "es = a # es'" by (cases es) auto
  then show ?thesis using g [of "[a]" es'] by (simp add: append_slice_def)
qed

subsection \<open>Via entries\<close>

text \<open>What \<open>buildVia\<close> writes for one entry.\<close>

definition via_str :: "ViaEntry \<Rightarrow> string" where
  "via_str e =
     TrimPrefix (ReceivedProto e) ''HTTP/'' @ '' '' @ ReceivedBy e @
     (if Comment e \<noteq> [] then '' ('' @ escape CHR ''('' CHR '')'' (Comment e) @ '')'' else [])"

lemma buildVia_loop_join:
  "buildVia_loop b i es =
     b @ (if i > 0 \<and> es \<noteq> [] then '', '' else []) @ join_lines (map via_str es)"
  by (induction es arbitrary: b i)
     (simp_all add: Let_def via_str_def writeDelimited_def join_lines_Cons)

lemma buildVia_join: "buildVia es = join_lines (map via_str es)"
  by (simp add: buildVia_def buildVia_loop_join)

text \<open>
  An entry that \<open>buildVia\<close> writes so that \<open>Via\<close> reads it back: the protocol is
  \<open>HTTP/\<close> and a version without a slash, or names another protocol before a slash;
  protocol and received-by are not empty and have no whitespace or comma.
\<close>

definition wf_via :: "ViaEntry \<Rightarrow> bool" where
  "wf_via e =
     (chompable (ReceivedProto e) \<and> chompable (ReceivedBy e) \<and>
      (if prefix ''HTTP/'' (ReceivedProto e)
       then TrimPrefix (ReceivedProto e) ''HTTP/'' \<noteq> [] \<and>
            CHR ''/'' \<notin> set (TrimPrefix (ReceivedProto e) ''HTTP/'')
       else CHR ''/'' \<in> set (ReceivedProto e)))"

lemma chompable_hd: "chompable s \<Longrightarrow> \<not> isWS (hd s) \<and> hd s \<noteq> CHR '','' \<and> s \<noteq> []"
  by (cases s) (auto simp: chompable_def isChompChar_def)

lemma skipWS_space_chompable: "chompable s \<Longrightarrow> skipWS (CHR '' '' # s @ r) = s @ r"
  by (cases s) (auto simp: chompable_def isChompChar_def skipWS_def isWS_def)

lemma TrimPrefix_prefix: "prefix pre s \<Longrightarrow> pre @ TrimPrefix s pre = s"
  by (auto simp: TrimPrefix_def prefix_def)

lemma TrimPrefix_set: "set (TrimPrefix s pre) \<subseteq> set s"
  by (auto simp: TrimPrefix_def dest: in_set_dropD)

lemma wf_via_trim:
  assumes "wf_via e"
  shows "chompable (TrimPrefix (ReceivedProto e) ''HTTP/'')"
    and "(if CHR ''/'' \<notin> set (TrimPrefix (ReceivedProto e) ''HTTP/'')
         then ''HTTP/'' @ TrimPrefix (ReceivedProto e) ''HTTP/''
         else TrimPrefix (ReceivedProto e) ''HTTP/'') = ReceivedProto e"
proof -
  let ?p = "ReceivedProto e"
  let ?t = "TrimPrefix ?p ''HTTP/''"
  from assms have "list_all isChompChar ?p" by (simp add: wf_via_def chompable_def)
  with TrimPrefix_set [of ?p "''HTTP/''"] have l: "list_all isChompChar ?t"
    by (auto simp: list_all_iff)
  show "chompable ?t"
  proof (cases "prefix ''HTTP/'' ?p")
    case True
    with assms have "?t \<noteq> []" by (simp add: wf_via_def)
    with l show ?thesis by (simp add: chompable_def)
  next
    case False
    then have "?t = ?p" by (simp add: TrimPrefix_def)
    with assms show ?thesis by (simp add: wf_via_def)
  qed
  show "(if CHR ''/'' \<notin> set ?t then ''HTTP/'' @ ?t else ?t) = ?p"
  proof (cases "prefix ''HTTP/'' ?p")
    case True
    with assms have "CHR ''/'' \<notin> set ?t" by (simp add: wf_via_def)
    with TrimPrefix_prefix [OF True] show ?thesis by simp
  next
    case False
    then have "?t = ?p" by (simp add: TrimPrefix_def)
    with False assms show ?thesis by (simp add: wf_via_def)
  qed
qed

lemma Via_elem_read:
  assumes wf: "wf_via e" and r: "at_end r"
  shows "Via_elem (via_str e @ r) = (Some e, r)"
proof -
  let ?p = "TrimPrefix (ReceivedProto e) ''HTTP/''"
  let ?c = "if Comment e \<noteq> [] then '' ('' @ escape CHR ''('' CHR '')'' (Comment e) @ '')'' else []"
  from wf have rb: "chompable (ReceivedBy e)" by (simp add: wf_via_def)
  note p = wf_via_trim [OF wf]
  have 1: "chomp (via_str e @ r) = (?p, ReceivedBy e @ ?c @ r)"
    using chomp_read [OF p(1), of "CHR '' '' # ReceivedBy e @ ?c @ r"]
      skipWS_space_chompable [OF rb, of "?c @ r"]
    by (simp add: via_str_def stops_chomp_def isChompChar_def isWS_def)
  have sc: "stops_chomp (?c @ r)"
    using at_end_stops [OF r] by (simp add: stops_chomp_def isChompChar_def isWS_def)
  have 2: "chomp (ReceivedBy e @ ?c @ r) = (ReceivedBy e, skipWS (?c @ r))"
    by (rule chomp_read [OF rb sc])
  have ne1: "?p \<noteq> []" and ne2: "ReceivedBy e \<noteq> []"
    using p(1) rb by (simp_all add: chompable_def)
  show ?thesis
  proof (cases "Comment e = []")
    case True
    then have 3: "skipWS (?c @ r) = r" using at_end_skipWS [OF r] by simp
    from 1 True have c1: "chomp (via_str e @ r) = (?p, ReceivedBy e @ r)" by simp
    from 2 3 True have c2: "chomp (ReceivedBy e @ r) = (ReceivedBy e, r)" by simp
    have "peek r \<noteq> Some CHR ''(''" by (rule at_end_peek [OF r]) simp
    with True p(2) ne1 ne2 show ?thesis
      by (simp add: Via_elem_def c1 c2 Let_def)
  next
    case False
    then have 3: "skipWS (?c @ r) =
        CHR ''('' # escape CHR ''('' CHR '')'' (Comment e) @ CHR '')'' # r"
      by (simp add: skipWS_def isWS_def HTAB_def)
    let ?cm = "CHR ''('' # escape CHR ''('' CHR '')'' (Comment e) @ CHR '')'' # r"
    from 1 False have c1: "chomp (via_str e @ r) = (?p, ReceivedBy e @ CHR '' '' # ?cm)"
      by simp
    from 2 3 False have c2: "chomp (ReceivedBy e @ CHR '' '' # ?cm) = (ReceivedBy e, ?cm)"
      by simp
    from False p(2) ne1 ne2 show ?thesis
      by (simp add: Via_elem_def c1 c2 Let_def peek_def comment_escape)
  qed
qed

lemma via_str_start: "wf_via e \<Longrightarrow> via_str e \<noteq> [] \<and> \<not> isSep (hd (via_str e))"
  using chompable_hd [OF wf_via_trim(1), of e]
  by (cases "TrimPrefix (ReceivedProto e) ''HTTP/''") (auto simp: via_str_def isSep_def)

lemma Via_round_trip:
  assumes "es \<noteq> []" "list_all wf_via es"
  shows "Via_loop None [] [buildVia es] = Some es"
proof -
  have "run Via_elem [] [join_lines (map via_str es)] es"
    using assms by (intro run_built_line) (auto simp: list_all_iff Via_elem_read via_str_start)
  from Via_loop_run [OF this, of None] assms(1) show ?thesis
    by (simp add: buildVia_join foldl_append_slice_Some)
qed

subsection \<open>Warning entries\<close>

text \<open>What \<open>buildWarning\<close> writes for one entry, and the quoted form of a text.\<close>

definition quote :: "string \<Rightarrow> string" where
  "quote s = DQUOTE # escape DQUOTE DQUOTE s @ [DQUOTE]"

definition warning_str :: "('t::zero \<Rightarrow> string) \<Rightarrow> 't WarningEntry \<Rightarrow> string" where
  "warning_str Format e =
     Itoa (Code e) @ '' '' @ Agent e @ '' '' @ quote (Text e) @
     (if Date e \<noteq> 0 then '' '' @ [DQUOTE] @ Format (Date e) @ [DQUOTE] else [])"

lemma buildWarning_loop_join:
  "buildWarning_loop Format b i es =
     b @ (if i > 0 \<and> es \<noteq> [] then '', '' else []) @ join_lines (map (warning_str Format) es)"
  by (induction es arbitrary: b i)
     (simp_all add: Let_def warning_str_def quote_def writeDelimited_def join_lines_Cons)

lemma buildWarning_join: "buildWarning Format es = join_lines (map (warning_str Format) es)"
  by (simp add: buildWarning_def buildWarning_loop_join)

lemma Warning_elem_text:
  assumes "0 \<le> code" "chompable agent"
  shows "Warning_elem pt (Itoa code @ CHR '' '' # agent @ CHR '' '' # quote wtext @ tail) =
    (case consume tail CHR '' '' of
       (v5, ok) \<Rightarrow>
         if ok then
           (case quoted v5 of
              (dateStr, v6) \<Rightarrow>
                (Some \<lparr>Code = code, Agent = agent, Text = wtext,
                   Date = (case pt dateStr of None \<Rightarrow> 0 | Some t \<Rightarrow> t)\<rparr>, v6))
         else (Some \<lparr>Code = code, Agent = agent, Text = wtext, Date = 0\<rparr>, v5))"
proof -
  let ?q = "quote wtext @ tail"
  have n: "number (Itoa code @ CHR '' '' # agent @ CHR '' '' # ?q) =
      (code, CHR '' '' # agent @ CHR '' '' # ?q)"
    by (rule number_Itoa [OF assms(1)]) (simp add: stops_number_def isDigit_def)
  have c: "chomp (agent @ CHR '' '' # ?q) = (agent, ?q)"
    using chomp_read [OF assms(2), of "CHR '' '' # ?q"]
    by (simp add: stops_chomp_def isChompChar_def isWS_def skipWS_def quote_def DQUOTE_def HTAB_def)
  have q: "quoted ?q = (wtext, tail)"
    using quoted_escape [of wtext tail] by (simp add: quote_def)
  from assms have "code \<noteq> -1" "agent \<noteq> []" by (simp_all add: chompable_def)
  then show ?thesis
    by (simp add: Warning_elem_def n consume_space c q)
qed

text \<open>
  An entry that \<open>buildWarning\<close> writes so that \<open>Warning\<close> reads it back: the code is
  not negative, the agent is not empty and has no whitespace or comma, and a date that is
  not the zero time is one that \<open>ParseTime\<close> reads back from its \<open>Format\<close>, which has
  no quote or backslash.
\<close>

definition wf_warning ::
  "(string \<Rightarrow> 't::zero option) \<Rightarrow> ('t \<Rightarrow> string) \<Rightarrow> 't WarningEntry \<Rightarrow> bool" where
  "wf_warning ParseTime Format e =
     (0 \<le> Code e \<and> chompable (Agent e) \<and>
      (Date e = 0 \<or>
       ParseTime (Format (Date e)) = Some (Date e) \<and>
       DQUOTE \<notin> set (Format (Date e)) \<and> BSLASH \<notin> set (Format (Date e))))"

lemma Warning_elem_read:
  assumes wf: "wf_warning pt fmt e" and r: "at_end r"
  shows "Warning_elem pt (warning_str fmt e @ r) = (Some e, r)"
proof -
  from wf have c: "0 \<le> Code e" and a: "chompable (Agent e)" by (simp_all add: wf_warning_def)
  show ?thesis
  proof (cases "Date e = 0")
    case True
    have "peek r \<noteq> Some CHR '' ''" by (rule at_end_peek [OF r]) simp
    then have "consume r CHR '' '' = (r, False)" by (rule consume_no_space)
    with True Warning_elem_text [OF c a, of pt "Text e" r] show ?thesis
      by (simp add: warning_str_def)
  next
    case False
    let ?d = "fmt (Date e)"
    from False wf have p: "pt ?d = Some (Date e)" and nq: "DQUOTE \<notin> set ?d" "BSLASH \<notin> set ?d"
      by (simp_all add: wf_warning_def)
    have "escape DQUOTE DQUOTE ?d = ?d" by (rule escape_plain [OF nq(1) nq(1) nq(2)])
    with quoted_escape [of ?d r] have q: "quoted (DQUOTE # ?d @ DQUOTE # r) = (?d, r)" by simp
    from False Warning_elem_text [OF c a, of pt "Text e" "CHR '' '' # DQUOTE # ?d @ DQUOTE # r"]
    show ?thesis by (simp add: warning_str_def consume_space q p)
  qed
qed

lemma digits_of_start: "digits_of n \<noteq> [] \<and> isDigit (hd (digits_of n))"
  using digits_of_digits [of n] digits_of_nonempty [of n] by (cases "digits_of n") simp_all

lemma warning_str_start:
  "wf_warning pt fmt e \<Longrightarrow> warning_str fmt e \<noteq> [] \<and> \<not> isSep (hd (warning_str fmt e))"
  using digits_of_start [of "nat (Code e)"]
  by (cases "digits_of (nat (Code e))")
     (auto simp: wf_warning_def warning_str_def Itoa_def isSep_def isWS_def isDigit_def HTAB_def)

lemma Warning_round_trip:
  assumes "es \<noteq> []" "list_all (wf_warning pt fmt) es"
  shows "Warning_loop pt None [] [buildWarning fmt es] = Some es"
proof -
  have "run (Warning_elem pt) [] [join_lines (map (warning_str fmt) es)] es"
    using assms
    by (intro run_built_line) (auto simp: list_all_iff Warning_elem_read warning_str_start)
  from Warning_loop_run [OF this, of None] assms(1) show ?thesis
    by (simp add: buildWarning_join foldl_append_slice_Some)
qed

subsection \<open>Forwarded elements\<close>

text \<open>What \<open>writeParam\<close> writes for one pair, and the pairs of an element joined by \<open>;\<close>.\<close>

definition param_str :: "string \<times> string \<Rightarrow> string" where
  "param_str p = fst p @ ''='' @ (if list_all isTokenChar (snd p) then snd p else quote (snd p))"

fun params_str :: "(string \<times> string) list \<Rightarrow> string" where
  "params_str [] = []"
| "params_str [p] = param_str p"
| "params_str (p # q # ps) = param_str p @ '';'' @ params_str (q # ps)"

lemma params_str_snoc:
  "params_str (qs @ [p]) = params_str qs @ (if qs = [] then [] else '';'') @ param_str p"
  by (induction qs rule: params_str.induct) simp_all

lemma writeParam_snoc:
  "writeParam (b @ params_str qs) (qs \<noteq> []) n x = (b @ params_str (qs @ [(n, x)]), True)"
  by (simp add: writeParam_def Let_def params_str_snoc param_str_def quote_def writeDelimited_def)

text \<open>The pairs \<open>range\<close> visits, for the names in the order \<open>ks\<close>.\<close>

definition ext_pairs :: "(string \<rightharpoonup> string) \<Rightarrow> string list \<Rightarrow> (string \<times> string) list" where
  "ext_pairs m ks = map (\<lambda>k. (k, the (m k))) (filter (\<lambda>k. m k \<noteq> None) ks)"

lemma writeExt_snoc:
  "writeExt (b @ params_str qs, qs \<noteq> []) m ks =
     (b @ params_str (qs @ ext_pairs m ks), qs @ ext_pairs m ks \<noteq> [])"
proof (induction ks arbitrary: qs)
  case Nil
  show ?case by (simp add: ext_pairs_def)
next
  case (Cons k ks)
  show ?case
  proof (cases "m k")
    case None
    with Cons [of qs] show ?thesis by (simp add: ext_pairs_def)
  next
    case (Some x)
    have "writeExt (b @ params_str qs, qs \<noteq> []) m (k # ks) =
          writeExt (b @ params_str (qs @ [(k, x)]), qs @ [(k, x)] \<noteq> []) m ks"
      using Some by (simp add: writeParam_snoc)
    also have "\<dots> = (b @ params_str ((qs @ [(k, x)]) @ ext_pairs m ks),
        (qs @ [(k, x)]) @ ext_pairs m ks \<noteq> [])"
      by (rule Cons)
    finally show ?thesis using Some by (simp add: ext_pairs_def)
  qed
qed

text \<open>The pairs \<open>buildForwarded\<close> writes for one element.\<close>

definition std_pairs :: "ForwardedElem \<Rightarrow> (string \<times> string) list" where
  "std_pairs e =
     (if For e \<noteq> [] then [(''for'', For e)] else []) @
     (if By e \<noteq> [] then [(''by'', By e)] else []) @
     (if Host e \<noteq> [] then [(''host'', Host e)] else []) @
     (if Proto e \<noteq> [] then [(''proto'', Proto e)] else [])"

definition pairs_of ::
  "((string \<rightharpoonup> string) \<Rightarrow> string list) \<Rightarrow> ForwardedElem \<Rightarrow> (string \<times> string) list" where
  "pairs_of keys e =
     std_pairs e @ (case Ext e of None \<Rightarrow> [] | Some m \<Rightarrow> ext_pairs m (keys m))"

definition fwd_str :: "((string \<rightharpoonup> string) \<Rightarrow> string list) \<Rightarrow> ForwardedElem \<Rightarrow> string" where
  "fwd_str keys e = params_str (pairs_of keys e)"

lemma buildForwarded_elem_str: "buildForwarded_elem keys b e = b @ fwd_str keys e"
proof -
  define opt where
    "opt = (\<lambda>n x (w :: string \<times> bool). if x \<noteq> [] then writeParam (fst w) (snd w) n x else w)"
  let ?w4 = "opt ''proto'' (Proto e) (opt ''host'' (Host e) (opt ''by'' (By e)
      (opt ''for'' (For e) (b @ params_str [], ([] :: (string \<times> string) list) \<noteq> []))))"
  have o: "\<And>n x qs. opt n x (b @ params_str qs, qs \<noteq> []) =
      (b @ params_str (qs @ (if x \<noteq> [] then [(n, x)] else [])),
       qs @ (if x \<noteq> [] then [(n, x)] else []) \<noteq> [])"
    by (simp add: opt_def writeParam_snoc)
  have w4: "?w4 = (b @ params_str (std_pairs e), std_pairs e \<noteq> [])"
    unfolding std_pairs_def by (simp only: o append_Nil append_assoc)
  have "buildForwarded_elem keys b e =
      fst (case Ext e of None \<Rightarrow> ?w4 | Some m \<Rightarrow> writeExt ?w4 m (keys m))"
    by (simp only: buildForwarded_elem_def Let_def opt_def params_str.simps append_Nil2
          simp_thms)
  also have "\<dots> = b @ params_str (pairs_of keys e)"
    unfolding w4 by (cases "Ext e") (simp_all add: writeExt_snoc pairs_of_def)
  finally show ?thesis by (simp add: fwd_str_def)
qed

lemma buildForwarded_loop_join:
  "buildForwarded_loop keys b i es =
     b @ (if i > 0 \<and> es \<noteq> [] then '', '' else []) @ join_lines (map (fwd_str keys) es)"
  by (induction es arbitrary: b i)
     (simp_all add: Let_def buildForwarded_elem_str join_lines_Cons)

lemma buildForwarded_join: "buildForwarded keys es = join_lines (map (fwd_str keys) es)"
  by (simp add: buildForwarded_def buildForwarded_loop_join)


text \<open>Reading back what \<open>writeParam\<close> wrote.\<close>

lemma Forwarded_pairs_param:
  assumes n: "n \<noteq> []" "list_all isTokenChar n"
    and r: "stops_token r" "peek r \<noteq> Some DQUOTE"
  shows "Forwarded_pairs e (param_str (n, x) @ r) = Forwarded_pairs (setParam e (ToLower n) x) r"
proof (cases "list_all isTokenChar x")
  case True
  have 1: "consumeItem (n @ CHR ''='' # x @ r) = (n, CHR ''='' # x @ r)"
    using n(2) by (intro consumeItem_append) simp_all
  have 2: "consumeItem (x @ r) = (x, r)"
    using True r(1) by (intro consumeItem_append)
  have 3: "peek (x @ r) \<noteq> Some DQUOTE"
  proof (cases x)
    case Nil
    with r(2) show ?thesis by simp
  next
    case (Cons c x')
    with True have "isTokenChar c" by simp
    then have "c \<noteq> DQUOTE" by auto
    with Cons show ?thesis by (simp add: peek_def)
  qed
  have "Forwarded_pairs e (n @ CHR ''='' # x @ r) = Forwarded_pairs (setParam e (ToLower n) x) r"
    using n(1) 1 2 3 by (subst Forwarded_pairs.simps) (simp add: peek_def)
  with True show ?thesis by (simp add: param_str_def)
next
  case False
  let ?q = "DQUOTE # escape DQUOTE DQUOTE x @ DQUOTE # r"
  have 1: "consumeItem (n @ CHR ''='' # ?q) = (n, CHR ''='' # ?q)"
    using n(2) by (intro consumeItem_append) simp_all
  have 2: "consumeQuoted ?q True = (x, r, True)" by (rule consumeQuoted_escape)
  have "Forwarded_pairs e (n @ CHR ''='' # ?q) = Forwarded_pairs (setParam e (ToLower n) x) r"
    using n(1) 1 2 by (subst Forwarded_pairs.simps) (simp add: peek_def)
  with False show ?thesis by (simp add: param_str_def quote_def)
qed

definition pair_name :: "string \<times> string \<Rightarrow> bool" where
  "pair_name p = (fst p \<noteq> [] \<and> list_all isTokenChar (fst p))"

lemma at_end_stops_token: "at_end r \<Longrightarrow> stops_token r"
  by (cases r) (auto simp: at_end_def)

lemma Forwarded_pairs_params:
  "list_all pair_name ps \<Longrightarrow> at_end r \<Longrightarrow>
   Forwarded_pairs e (params_str ps @ r) = (setParams e ps, r)"
proof (induction ps arbitrary: e rule: params_str.induct)
  case 1
  from at_end_stops_token [OF 1(2)] at_end_peek [OF 1(2), of "CHR '';''"] show ?case
    by (simp add: Forwarded_pairs_stop setParams_def)
next
  case (2 p)
  obtain n x where p: "p = (n, x)" by (cases p)
  with 2(1) have n: "n \<noteq> []" "list_all isTokenChar n" by (simp_all add: pair_name_def)
  have dq: "DQUOTE \<noteq> CHR '',''" by (simp add: DQUOTE_def)
  from at_end_peek [OF 2(2) dq] have pr: "peek r \<noteq> Some DQUOTE" .
  have "Forwarded_pairs e (param_str (n, x) @ r) = Forwarded_pairs (setParam e (ToLower n) x) r"
    using n at_end_stops_token [OF 2(2)] pr by (rule Forwarded_pairs_param)
  also have "\<dots> = (setParam e (ToLower n) x, r)"
    using at_end_stops_token [OF 2(2)] at_end_peek [OF 2(2), of "CHR '';''"]
    by (simp add: Forwarded_pairs_stop)
  finally show ?case using p by (simp add: setParams_def)
next
  case (3 p q ps)
  obtain n x where p: "p = (n, x)" by (cases p)
  with 3(2) have n: "n \<noteq> []" "list_all isTokenChar n" by (simp_all add: pair_name_def)
  from 3(2) have rest: "list_all pair_name (q # ps)" by simp
  let ?r = "CHR '';'' # params_str (q # ps) @ r"
  have "Forwarded_pairs e (params_str (p # q # ps) @ r) = Forwarded_pairs e (param_str (n, x) @ ?r)"
    using p by simp
  also have "\<dots> = Forwarded_pairs (setParam e (ToLower n) x) ?r"
    using n by (intro Forwarded_pairs_param) (simp_all add: peek_def DQUOTE_def)
  also have "\<dots> = Forwarded_pairs (setParam e (ToLower n) x) (params_str (q # ps) @ r)"
    by (rule Forwarded_pairs_semicolon)
  also have "\<dots> = (setParams (setParam e (ToLower n) x) (q # ps), r)"
    using rest 3(3) by (rule "3.IH")
  finally show ?case using p by (simp add: setParams_def)
qed

text \<open>
  An element that \<open>buildForwarded\<close> writes so that \<open>Forwarded\<close> reads it back: the
  protocol is in lower case; the extension map is nil or has a key, its keys are not
  empty, are tokens in lower case and are none of the four standard names, and \<open>range\<close>
  visits exactly its keys; the element has a parameter.
\<close>

definition ext_name :: "string \<Rightarrow> bool" where
  "ext_name k = (k \<noteq> [] \<and> list_all isTokenChar k \<and> ToLower k = k \<and> k \<notin> std_names)"

definition wf_forwarded :: "((string \<rightharpoonup> string) \<Rightarrow> string list) \<Rightarrow> ForwardedElem \<Rightarrow> bool" where
  "wf_forwarded keys e =
     (ToLower (Proto e) = Proto e \<and> pairs_of keys e \<noteq> [] \<and>
      (case Ext e of
         None \<Rightarrow> True
       | Some m \<Rightarrow> keys m \<noteq> [] \<and> set (keys m) = dom m \<and> list_all ext_name (keys m)))"

lemma ToLower_std:
  "ToLower ''for'' = ''for''" "ToLower ''by'' = ''by''" "ToLower ''host'' = ''host''"
  "ToLower ''proto'' = ''proto''"
  by code_simp+

lemma setParams_append: "setParams e (ps @ qs) = setParams (setParams e ps) qs"
  by (simp add: setParams_def)

lemma setParams_std:
  assumes "ToLower (Proto e) = Proto e"
  shows "setParams ForwardedElem_zero (std_pairs e) =
    \<lparr>By = By e, For = For e, Host = Host e, Proto = Proto e, Ext = None\<rparr>"
  using assms
  by (simp add: setParams_def std_pairs_def setParam_def ToLower_std ForwardedElem_zero_def)

lemma setParam_ext:
  "ext_name k \<Longrightarrow> (case Ext e of None \<Rightarrow> Map.empty | Some m0 \<Rightarrow> m0) = M0 \<Longrightarrow>
   setParam e (ToLower k) x = e\<lparr>Ext := Some (M0(k \<mapsto> x))\<rparr>"
  by (auto simp: ext_name_def setParam_def std_names_def)

lemma setParams_ext:
  "list_all ext_name ks \<Longrightarrow> set ks \<subseteq> dom m \<Longrightarrow> ks \<noteq> [] \<Longrightarrow>
   (case Ext e of None \<Rightarrow> Map.empty | Some m0 \<Rightarrow> m0) = M0 \<Longrightarrow>
   setParams e (ext_pairs m ks) = e\<lparr>Ext := Some (M0 ++ (m |` set ks))\<rparr>"
proof (induction ks arbitrary: e M0)
  case Nil
  then show ?case by simp
next
  case (Cons k ks)
  from Cons.prems obtain x where x: "m k = Some x" by auto
  from Cons.prems have k: "ext_name k" by simp
  let ?e = "e\<lparr>Ext := Some (M0(k \<mapsto> x))\<rparr>"
  have upd: "\<And>B. ?e\<lparr>Ext := B\<rparr> = e\<lparr>Ext := B\<rparr>" by simp
  have step: "setParams e (ext_pairs m (k # ks)) = setParams ?e (ext_pairs m ks)"
    using x setParam_ext [OF k Cons.prems(4), of x] by (simp add: ext_pairs_def setParams_def)
  show ?case
  proof (cases "ks = []")
    case True
    have "M0(k \<mapsto> x) = M0 ++ (m |` set (k # ks))"
      using x True
      by (auto simp: map_add_def restrict_map_def fun_eq_iff split: option.splits)
    with step True show ?thesis by (simp add: ext_pairs_def setParams_def)
  next
    case False
    from Cons.prems have 1: "list_all ext_name ks" "set ks \<subseteq> dom m" by simp_all
    have 2: "(case Ext ?e of None \<Rightarrow> Map.empty | Some m0 \<Rightarrow> m0) = M0(k \<mapsto> x)" by simp
    note a = Cons.IH [OF 1 False 2]
    have b: "M0(k \<mapsto> x) ++ (m |` set ks) = M0 ++ (m |` set (k # ks))"
      using x by (auto simp: map_add_def restrict_map_def fun_eq_iff split: option.splits)
    show ?thesis unfolding step a upd b ..
  qed
qed

lemma setParams_pairs_of:
  assumes "wf_forwarded keys e"
  shows "setParams ForwardedElem_zero (pairs_of keys e) = e"
proof (cases "Ext e")
  case None
  with assms have "ToLower (Proto e) = Proto e" by (simp add: wf_forwarded_def)
  from setParams_std [OF this] None show ?thesis by (simp add: pairs_of_def)
next
  case (Some m)
  with assms have p: "ToLower (Proto e) = Proto e" and k: "keys m \<noteq> []" "set (keys m) = dom m"
    "list_all ext_name (keys m)"
    by (simp_all add: wf_forwarded_def)
  let ?e1 = "\<lparr>By = By e, For = For e, Host = Host e, Proto = Proto e, Ext = None\<rparr>"
  have "setParams ForwardedElem_zero (pairs_of keys e) = setParams ?e1 (ext_pairs m (keys m))"
    using Some setParams_std [OF p] by (simp add: pairs_of_def setParams_append)
  also have "\<dots> = ?e1\<lparr>Ext := Some (Map.empty ++ (m |` set (keys m)))\<rparr>"
    using k by (intro setParams_ext) simp_all
  also have "\<dots> = e"
  proof -
    have "Map.empty ++ (m |` set (keys m)) = m"
      using k(2) by (auto simp: map_add_def restrict_map_def fun_eq_iff domIff split: option.splits)
    with Some show ?thesis by (cases e) simp
  qed
  finally show ?thesis .
qed

lemma std_tokens:
  "list_all isTokenChar ''for''" "list_all isTokenChar ''by''" "list_all isTokenChar ''host''"
  "list_all isTokenChar ''proto''"
  by code_simp+

lemma std_pair_name:
  "pair_name (''for'', x)" "pair_name (''by'', x)" "pair_name (''host'', x)"
  "pair_name (''proto'', x)"
  unfolding pair_name_def fst_conv by (rule conjI, simp, rule std_tokens)+

lemma std_pairs_names: "list_all pair_name (std_pairs e)"
  by (simp add: std_pairs_def std_pair_name)

lemma ext_pairs_names: "list_all ext_name ks \<Longrightarrow> list_all pair_name (ext_pairs m ks)"
  by (induction ks) (simp_all add: ext_pairs_def pair_name_def ext_name_def)

lemma pairs_of_names: "wf_forwarded keys e \<Longrightarrow> list_all pair_name (pairs_of keys e)"
  by (cases "Ext e") (simp_all add: pairs_of_def std_pairs_names ext_pairs_names wf_forwarded_def)

lemma Forwarded_elem_read:
  assumes wf: "wf_forwarded keys e" and r: "at_end r"
  shows "Forwarded_elem (fwd_str keys e @ r) = (Some e, r)"
  using Forwarded_pairs_params [OF pairs_of_names [OF wf] r, of ForwardedElem_zero]
    setParams_pairs_of [OF wf]
  by (simp add: Forwarded_elem_def fwd_str_def)

lemma params_str_start:
  "ps \<noteq> [] \<Longrightarrow> list_all pair_name ps \<Longrightarrow> params_str ps \<noteq> [] \<and> \<not> isSep (hd (params_str ps))"
proof (induction ps rule: params_str.induct)
  case 1
  then show ?case by simp
next
  case (2 p)
  then obtain c n' where "fst p = c # n'" "isTokenChar c"
    by (cases "fst p") (auto simp: pair_name_def)
  then show ?case by (simp add: param_str_def isTokenChar_not_sep)
next
  case (3 p q ps)
  then obtain c n' where "fst p = c # n'" "isTokenChar c"
    by (cases "fst p") (auto simp: pair_name_def)
  then show ?case by (simp add: param_str_def isTokenChar_not_sep)
qed

lemma fwd_str_start:
  "wf_forwarded keys e \<Longrightarrow> fwd_str keys e \<noteq> [] \<and> \<not> isSep (hd (fwd_str keys e))"
  unfolding fwd_str_def
  by (intro params_str_start pairs_of_names) (simp_all add: wf_forwarded_def)

lemma Forwarded_round_trip:
  assumes "es \<noteq> []" "list_all (wf_forwarded keys) es"
  shows "Forwarded_loop None [] [buildForwarded keys es] = Some es"
proof -
  have "run Forwarded_elem [] [join_lines (map (fwd_str keys) es)] es"
    using assms
    by (intro run_built_line) (auto simp: list_all_iff Forwarded_elem_read fwd_str_start)
  from Forwarded_loop_run [OF this, of None] assms(1) show ?thesis
    by (simp add: buildForwarded_join foldl_append_slice_Some)
qed


subsection \<open>Parsing what was built\<close>

lemma lines_of_upd [simp]: "lines_of (h(name \<mapsto> ls)) name = ls"
  by (simp add: lines_of_def)

lemma Via_built:
  "list_all wf_via es \<Longrightarrow> Via (SetVia h es) = (if es = [] then None else Some es)"
  by (simp add: Via_def SetVia_def Via_round_trip)
     (simp add: buildVia_def Via_loop_blank blank_def)

lemma Warning_built:
  "list_all (wf_warning pt fmt) ws \<Longrightarrow>
   Warning pt (SetWarning fmt h ws) = (if ws = [] then None else Some ws)"
  by (simp add: Warning_def SetWarning_def Warning_round_trip)
     (simp add: buildWarning_def Warning_loop_blank blank_def)

lemma Forwarded_built:
  "list_all (wf_forwarded keys) fs \<Longrightarrow>
   Forwarded (SetForwarded keys h fs) = (if fs = [] then None else Some fs)"
  by (simp add: Forwarded_def SetForwarded_def Forwarded_round_trip)
     (simp add: buildForwarded_def Forwarded_loop_blank blank_def)

text \<open>
  Claim C2, as amended. For entries in the form in which the parsers give them,
  parsing what the builder writes gives the entries again, and nil for no entry at all:
  \<open>Via\<close> entries whose protocol is \<open>HTTP/\<close> and a version, or another name before a
  slash, and whose received-by is not empty (\<open>wf_via\<close>); \<open>Warning\<close> entries with a code
  that is not negative, an agent that is not empty, and a date that is the zero time or
  one that \<open>ParseTime\<close> reads back from its \<open>Format\<close> (\<open>wf_warning\<close>); \<open>Forwarded\<close>
  elements with a parameter, the protocol in lower case, and extension names that are
  tokens in lower case other than the four standard names (\<open>wf_forwarded\<close>). Protocol,
  received-by and agent have no whitespace or comma; comments, texts and parameter
  values are any strings.
\<close>

theorem built_headers_parse_back:
  "(list_all wf_via es \<longrightarrow> Via (SetVia h es) = (if es = [] then None else Some es)) \<and>
   (list_all (wf_warning pt fmt) ws \<longrightarrow>
      Warning pt (SetWarning fmt h ws) = (if ws = [] then None else Some ws)) \<and>
   (list_all (wf_forwarded keys) fs \<longrightarrow>
      Forwarded (SetForwarded keys h fs) = (if fs = [] then None else Some fs))"
  by (simp add: Via_built Warning_built Forwarded_built)

text \<open>
  The theorem at two entries of each kind: a comment in the first \<open>Via\<close> entry; quotes, a
  backslash and a comma in the text of the first warning, which has a date; a quoted
  value and an extension in the first \<open>Forwarded\<close> element.
\<close>

theorem built_headers_parse_back_witness:
  "list_all wf_via
     [\<lparr>ReceivedProto = ''HTTP/1.1'', ReceivedBy = ''foo.example.com:8080'', Comment = ''corp (a)''\<rparr>,
      \<lparr>ReceivedProto = ''FSTR/2'', ReceivedBy = ''bar'', Comment = []\<rparr>] \<and>
   buildVia
     [\<lparr>ReceivedProto = ''HTTP/1.1'', ReceivedBy = ''foo.example.com:8080'', Comment = ''corp (a)''\<rparr>,
      \<lparr>ReceivedProto = ''FSTR/2'', ReceivedBy = ''bar'', Comment = []\<rparr>] =
     ''1.1 foo.example.com:8080 (corp '' @ [BSLASH] @ ''(a'' @ [BSLASH] @ '')), FSTR/2 bar'' \<and>
   Via (SetVia Map.empty
     [\<lparr>ReceivedProto = ''HTTP/1.1'', ReceivedBy = ''foo.example.com:8080'', Comment = ''corp (a)''\<rparr>,
      \<lparr>ReceivedProto = ''FSTR/2'', ReceivedBy = ''bar'', Comment = []\<rparr>]) =
     Some
     [\<lparr>ReceivedProto = ''HTTP/1.1'', ReceivedBy = ''foo.example.com:8080'', Comment = ''corp (a)''\<rparr>,
      \<lparr>ReceivedProto = ''FSTR/2'', ReceivedBy = ''bar'', Comment = []\<rparr>] \<and>
   list_all
     (wf_warning (\<lambda>s. if s = ''Wed, 21 Oct 2015 07:28:00 GMT'' then Some (1445412480 :: int) else None)
        (\<lambda>t. if t = 1445412480 then ''Wed, 21 Oct 2015 07:28:00 GMT'' else ''-''))
     [\<lparr>Code = 299, Agent = ''gw1'', Text = ''a, '' @ [DQUOTE, BSLASH], Date = 1445412480\<rparr>,
      \<lparr>Code = 199, Agent = ''gw2'', Text = ''second'', Date = 0\<rparr>] \<and>
   buildWarning (\<lambda>t. if t = (1445412480 :: int) then ''Wed, 21 Oct 2015 07:28:00 GMT'' else ''-'')
     [\<lparr>Code = 299, Agent = ''gw1'', Text = ''a, '' @ [DQUOTE, BSLASH], Date = 1445412480\<rparr>,
      \<lparr>Code = 199, Agent = ''gw2'', Text = ''second'', Date = 0\<rparr>] =
     ''299 gw1 '' @ [DQUOTE] @ ''a, '' @ [BSLASH, DQUOTE, BSLASH, BSLASH, DQUOTE] @ '' '' @
     [DQUOTE] @ ''Wed, 21 Oct 2015 07:28:00 GMT'' @ [DQUOTE] @ '', 199 gw2 '' @
     [DQUOTE] @ ''second'' @ [DQUOTE] \<and>
   Warning (\<lambda>s. if s = ''Wed, 21 Oct 2015 07:28:00 GMT'' then Some (1445412480 :: int) else None)
     (SetWarning (\<lambda>t. if t = 1445412480 then ''Wed, 21 Oct 2015 07:28:00 GMT'' else ''-'') Map.empty
        [\<lparr>Code = 299, Agent = ''gw1'', Text = ''a, '' @ [DQUOTE, BSLASH],
           Date = (1445412480 :: int)\<rparr>,
         \<lparr>Code = 199, Agent = ''gw2'', Text = ''second'', Date = 0\<rparr>]) =
     Some
       [\<lparr>Code = 299, Agent = ''gw1'', Text = ''a, '' @ [DQUOTE, BSLASH], Date = 1445412480\<rparr>,
        \<lparr>Code = 199, Agent = ''gw2'', Text = ''second'', Date = 0\<rparr>] \<and>
   list_all (wf_forwarded (\<lambda>m. [''secret'']))
     [\<lparr>By = [], For = ''[::1]:80'', Host = [], Proto = ''https'',
        Ext = Some [''secret'' \<mapsto> ''x, y'']\<rparr>,
      \<lparr>By = ''gw'', For = [], Host = [], Proto = [], Ext = None\<rparr>] \<and>
   buildForwarded (\<lambda>m. [''secret''])
     [\<lparr>By = [], For = ''[::1]:80'', Host = [], Proto = ''https'',
        Ext = Some [''secret'' \<mapsto> ''x, y'']\<rparr>,
      \<lparr>By = ''gw'', For = [], Host = [], Proto = [], Ext = None\<rparr>] =
     ''for='' @ [DQUOTE] @ ''[::1]:80'' @ [DQUOTE] @ '';proto=https;secret='' @
     [DQUOTE] @ ''x, y'' @ [DQUOTE] @ '', by=gw'' \<and>
   Forwarded (SetForwarded (\<lambda>m. [''secret'']) Map.empty
     [\<lparr>By = [], For = ''[::1]:80'', Host = [], Proto = ''https'',
        Ext = Some [''secret'' \<mapsto> ''x, y'']\<rparr>,
      \<lparr>By = ''gw'', For = [], Host = [], Proto = [], Ext = None\<rparr>]) =
     Some
       [\<lparr>By = [], For = ''[::1]:80'', Host = [], Proto = ''https'',
          Ext = Some [''secret'' \<mapsto> ''x, y'']\<rparr>,
        \<lparr>By = ''gw'', For = [], Host = [], Proto = [], Ext = None\<rparr>]"
proof -
  let ?es = "[\<lparr>ReceivedProto = ''HTTP/1.1'', ReceivedBy = ''foo.example.com:8080'',
                Comment = ''corp (a)''\<rparr>,
              \<lparr>ReceivedProto = ''FSTR/2'', ReceivedBy = ''bar'', Comment = []\<rparr>]"
  let ?pt = "\<lambda>s. if s = ''Wed, 21 Oct 2015 07:28:00 GMT'' then Some (1445412480 :: int) else None"
  let ?fmt = "\<lambda>t. if t = (1445412480 :: int) then ''Wed, 21 Oct 2015 07:28:00 GMT'' else ''-''"
  let ?ws = "[\<lparr>Code = 299, Agent = ''gw1'', Text = ''a, '' @ [DQUOTE, BSLASH],
                Date = (1445412480 :: int)\<rparr>,
              \<lparr>Code = 199, Agent = ''gw2'', Text = ''second'', Date = 0\<rparr>]"
  let ?keys = "\<lambda>m :: string \<rightharpoonup> string. [''secret'']"
  let ?f1 = "\<lparr>By = [], For = ''[::1]:80'', Host = [], Proto = ''https'',
               Ext = Some [''secret'' \<mapsto> ''x, y'']\<rparr>"
  let ?f2 = "\<lparr>By = ''gw'', For = [], Host = [], Proto = [], Ext = None\<rparr>"
  have h1: "list_all wf_via ?es" by code_simp
  have b1: "buildVia ?es =
     ''1.1 foo.example.com:8080 (corp '' @ [BSLASH] @ ''(a'' @ [BSLASH] @ '')), FSTR/2 bar''"
    by code_simp
  have h2: "list_all (wf_warning ?pt ?fmt) ?ws" by code_simp
  have b2: "buildWarning ?fmt ?ws =
     ''299 gw1 '' @ [DQUOTE] @ ''a, '' @ [BSLASH, DQUOTE, BSLASH, BSLASH, DQUOTE] @ '' '' @
     [DQUOTE] @ ''Wed, 21 Oct 2015 07:28:00 GMT'' @ [DQUOTE] @ '', 199 gw2 '' @
     [DQUOTE] @ ''second'' @ [DQUOTE]"
    by code_simp
  have l: "ToLower ''https'' = ''https''" "ToLower [] = []" by code_simp+
  have n: "ext_name ''secret''" by code_simp
  have h3: "list_all (wf_forwarded ?keys) [?f1, ?f2]"
    by (simp add: wf_forwarded_def pairs_of_def std_pairs_def l n)
  have b3: "buildForwarded ?keys [?f1, ?f2] =
     ''for='' @ [DQUOTE] @ ''[::1]:80'' @ [DQUOTE] @ '';proto=https;secret='' @
     [DQUOTE] @ ''x, y'' @ [DQUOTE] @ '', by=gw''"
    by code_simp
  have v: "Via (SetVia Map.empty ?es) = Some ?es"
    using built_headers_parse_back [THEN conjunct1, THEN mp, OF h1] by simp
  have w: "Warning ?pt (SetWarning ?fmt Map.empty ?ws) = Some ?ws"
    using built_headers_parse_back
      [where pt = ?pt and fmt = ?fmt, THEN conjunct2, THEN conjunct1, THEN mp, OF h2]
    by simp
  have f: "Forwarded (SetForwarded ?keys Map.empty [?f1, ?f2]) = Some [?f1, ?f2]"
    using built_headers_parse_back [THEN conjunct2, THEN conjunct2, THEN mp, OF h3] by simp
  show ?thesis by (intro conjI h1 b1 v h2 b2 w h3 b3 f)
qed

text \<open>
  Claim C2 as stated fails, with no character in need of an escape: \<open>Forwarded\<close> gives
  the protocol in lower case and \<open>buildForwarded\<close> writes it as it is; an extension
  named like a standard parameter is read back as that parameter; an element with no
  parameter is not written; \<open>buildVia\<close> writes the protocol \<open>1.1\<close> as it is and \<open>Via\<close>
  reads it as \<open>HTTP/1.1\<close>; a negative code is written and is not read as a code.
\<close>

theorem built_headers_counterexample:
  "map Proto (elems_of (Forwarded (SetForwarded (\<lambda>m. []) Map.empty
      [\<lparr>By = [], For = [], Host = [], Proto = ''HTTPS'', Ext = None\<rparr>]))) = [''https''] \<and>
   map For (elems_of (Forwarded (SetForwarded (\<lambda>m. [''for'']) Map.empty
      [\<lparr>By = [], For = [], Host = [], Proto = [], Ext = Some [''for'' \<mapsto> ''x'']\<rparr>]))) = [''x''] \<and>
   elems_of (Forwarded (SetForwarded (\<lambda>m. []) Map.empty
      [\<lparr>By = [], For = [], Host = [], Proto = [], Ext = None\<rparr>])) = [] \<and>
   Via (SetVia Map.empty [\<lparr>ReceivedProto = ''1.1'', ReceivedBy = ''foo'', Comment = []\<rparr>]) =
     Some [\<lparr>ReceivedProto = ''HTTP/1.1'', ReceivedBy = ''foo'', Comment = []\<rparr>] \<and>
   Warning (\<lambda>s. None :: int option) (SetWarning (\<lambda>t. []) Map.empty
      [\<lparr>Code = - 1, Agent = ''gw'', Text = ''t'', Date = (0 :: int)\<rparr>]) = None"
  by code_simp

section \<open>Warning: a date that does not parse\<close>

text \<open>An element with a code, an agent, a quoted text and a quoted date string.\<close>

definition dated_elem :: "int \<Rightarrow> string \<Rightarrow> string \<Rightarrow> string \<Rightarrow> string" where
  "dated_elem code agent wtext dateStr =
     Itoa code @ '' '' @ agent @ '' '' @ quote wtext @ '' '' @ quote dateStr"

lemma Warning_elem_dated:
  assumes "0 \<le> code" "chompable agent"
  shows "Warning_elem pt (dated_elem code agent wtext dateStr @ r) =
    (Some \<lparr>Code = code, Agent = agent, Text = wtext,
       Date = (case pt dateStr of None \<Rightarrow> 0 | Some t \<Rightarrow> t)\<rparr>, r)"
proof -
  have q: "quoted (quote dateStr @ r) = (dateStr, r)"
    using quoted_escape [of dateStr r] by (simp add: quote_def)
  from Warning_elem_text [OF assms, of pt wtext "CHR '' '' # quote dateStr @ r"]
  show ?thesis by (simp add: dated_elem_def consume_space q)
qed

lemma dated_elem_start:
  "0 \<le> code \<Longrightarrow> dated_elem code agent wtext dateStr \<noteq> [] \<and>
     \<not> isSep (hd (dated_elem code agent wtext dateStr))"
  using digits_of_start [of "nat code"]
  by (cases "digits_of (nat code)")
     (auto simp: dated_elem_def Itoa_def isSep_def isWS_def isDigit_def HTAB_def)




end
